theory Spec2Isabelle
  imports Complex_Main
begin

section \<open>Characters and strings\<close>

text \<open>
  A Python \<open>str\<close> is a sequence of code points. The model uses \<^typ>\<open>string\<close>, whose
  characters are the code points below 256 (ASCII and Latin-1). The character classes
  below are the ones of CPython on that range: \<open>\d\<close> of the \<open>re\<close> module is
  \<open>str.isdecimal\<close>, which \<open>int\<close> accepts; \<open>str.isdigit\<close> also holds for the
  superscripts U+00B2, U+00B3 and U+00B9, which \<open>int\<close> rejects.
\<close>

definition code :: "char \<Rightarrow> nat" where
  "code c = of_char c"

definition in_range :: "nat \<Rightarrow> nat \<Rightarrow> char \<Rightarrow> bool" where
  "in_range lo hi c = (lo \<le> code c \<and> code c \<le> hi)"

definition is_decimal :: "char \<Rightarrow> bool" where
  "is_decimal c = in_range 48 57 c"

definition isdigit :: "char \<Rightarrow> bool" where
  "isdigit c = (is_decimal c \<or> code c = 178 \<or> code c = 179 \<or> code c = 185)"

definition is_upper_az :: "char \<Rightarrow> bool" where
  "is_upper_az c = in_range 65 90 c"

definition is_lower_az :: "char \<Rightarrow> bool" where
  "is_lower_az c = in_range 97 122 c"

definition is_space :: "char \<Rightarrow> bool" where
  "is_space c = (in_range 9 13 c \<or> in_range 28 32 c \<or> code c = 133 \<or> code c = 160)"

definition is_word :: "char \<Rightarrow> bool" where
  "is_word c = (is_decimal c \<or> is_upper_az c \<or> is_lower_az c \<or> code c = 95
     \<or> code c = 170 \<or> code c = 178 \<or> code c = 179 \<or> code c = 181 \<or> code c = 185
     \<or> code c = 186 \<or> in_range 188 190 c \<or> in_range 192 214 c \<or> in_range 216 246 c
     \<or> in_range 248 255 c)"

definition digit_val :: "char \<Rightarrow> int" where
  "digit_val c = int (code c) - 48"

text \<open>\<open>str.upper\<close> and \<open>str.lower\<close>. The sharp s (223) becomes \<open>SS\<close>. The upper-case
  forms of 181 and 255 are U+039C and U+0178, beyond the modelled range; the model leaves
  these two characters as they are, which no pattern applied after \<open>upper\<close> can tell
  apart (they use ASCII classes only).\<close>

definition upper_char :: "char \<Rightarrow> string" where
  "upper_char c =
     (if is_lower_az c \<or> (in_range 224 254 c \<and> code c \<noteq> 247) then [char_of (code c - 32)]
      else if code c = 223 then ''SS''
      else [c])"

definition upper :: "string \<Rightarrow> string" where
  "upper s = concat (map upper_char s)"

definition lower_char :: "char \<Rightarrow> char" where
  "lower_char c =
     (if is_upper_az c \<or> (in_range 192 222 c \<and> code c \<noteq> 215) then char_of (code c + 32)
      else c)"

definition lower :: "string \<Rightarrow> string" where
  "lower s = map lower_char s"

text \<open>\<open>re.sub(r"\D", "", s)\<close>: the decimal digits of \<open>s\<close>, in order.\<close>

definition strip_non_digits :: "string \<Rightarrow> string" where
  "strip_non_digits s = filter is_decimal s"

text \<open>The slice \<open>s[i:j]\<close> for \<open>0 \<le> i\<close>, \<open>0 \<le> j\<close>.\<close>

definition slice :: "'a list \<Rightarrow> nat \<Rightarrow> nat \<Rightarrow> 'a list" where
  "slice s i j = take (j - i) (drop i s)"

text \<open>\<open>s[-n:]\<close> for \<open>n > 0\<close>: the last \<open>n\<close> elements, all of \<open>s\<close> when it is shorter.\<close>

definition last_n :: "nat \<Rightarrow> 'a list \<Rightarrow> 'a list" where
  "last_n n s = drop (length s - n) s"

text \<open>\<open>sub in s\<close> on strings.\<close>

fun contains :: "string \<Rightarrow> string \<Rightarrow> bool" where
  "contains sub [] = (sub = [])"
| "contains sub (c # cs) = (take (length sub) (c # cs) = sub \<or> contains sub cs)"

text \<open>\<open>s.split(sep)\<close> for a one-character separator: never empty, one more part than
  separators.\<close>

fun split_on :: "char \<Rightarrow> string \<Rightarrow> string list" where
  "split_on sep [] = [[]]"
| "split_on sep (c # cs) =
     (if c = sep then [] # split_on sep cs
      else (case split_on sep cs of p # ps \<Rightarrow> (c # p) # ps | [] \<Rightarrow> [[c]]))"

text \<open>\<open>sep.join(parts)\<close>.\<close>

fun join :: "string \<Rightarrow> string list \<Rightarrow> string" where
  "join sep [] = []"
| "join sep [p] = p"
| "join sep (p # q # ps) = p @ sep @ join sep (q # ps)"

section \<open>Regular expressions of the \<open>re\<close> module\<close>

text \<open>
  The patterns of the registry need character classes, \<open>\b\<close>, \<open>^\<close>, \<open>$\<close>,
  concatenation, alternation and counted repetition, greedy or lazy. \<open>re\<close> is a
  backtracking matcher: the model returns, for a pattern and a cursor, every cursor at
  which the pattern can end, in the order in which backtracking tries them. The head of
  that list is the match.

  A cursor is the position, the character before it (if any) and the text from it on.
\<close>

type_synonym cursor = "nat \<times> char option \<times> string"

definition cur_pos :: "cursor \<Rightarrow> nat" where
  "cur_pos c = fst c"

definition cur_rest :: "cursor \<Rightarrow> string" where
  "cur_rest c = snd (snd c)"

definition start_cursor :: "string \<Rightarrow> cursor" where
  "start_cursor s = (0, None, s)"

text \<open>\<open>Class P\<close> is one character of the class \<open>P\<close>; \<open>WordB\<close>, \<open>Bol\<close> and
  \<open>Eol\<close> are \<open>\b\<close>, \<open>^\<close> and \<open>$\<close>; \<open>Rep lo hi greedy r\<close> is \<open>r{lo,hi}\<close>
  (no upper bound when \<open>hi\<close> is \<open>None\<close>), lazy when \<open>greedy\<close> is false.\<close>

datatype regex =
    Eps
  | Class "char \<Rightarrow> bool"
  | WordB
  | Bol
  | Eol
  | Cat regex regex
  | Alt regex regex
  | Rep nat "nat option" bool regex

text \<open>\<open>\b\<close>: exactly one of the two neighbours is a word character (a missing
  neighbour counts as a non-word character).\<close>

fun at_boundary :: "cursor \<Rightarrow> bool" where
  "at_boundary (i, prev, rest) =
     ((case prev of None \<Rightarrow> False | Some p \<Rightarrow> is_word p)
      \<noteq> (case rest of [] \<Rightarrow> False | x # _ \<Rightarrow> is_word x))"

fun step_class :: "(char \<Rightarrow> bool) \<Rightarrow> cursor \<Rightarrow> cursor list" where
  "step_class P (i, prev, []) = []"
| "step_class P (i, prev, x # xs) = (if P x then [(Suc i, Some x, xs)] else [])"

text \<open>Repetition of a body \<open>f\<close>: \<open>lo\<close> iterations are still owed, at most \<open>n\<close> more
  are allowed. A greedy repetition tries one more iteration before stopping, a lazy one
  stops first.\<close>

fun rep_ends :: "(cursor \<Rightarrow> cursor list) \<Rightarrow> bool \<Rightarrow> nat \<Rightarrow> nat \<Rightarrow> cursor \<Rightarrow> cursor list" where
  "rep_ends f greedy lo 0 c = (if lo = 0 then [c] else [])"
| "rep_ends f greedy lo (Suc n) c =
     (if lo > 0 then concat (map (\<lambda>d. rep_ends f greedy (lo - 1) n d) (f c))
      else if greedy then concat (map (\<lambda>d. rep_ends f greedy 0 n d) (f c)) @ [c]
      else c # concat (map (\<lambda>d. rep_ends f greedy 0 n d) (f c)))"

text \<open>An unbounded repetition is cut at the length of the remaining text: every
  repeated body of the registry consumes at least one character.\<close>

primrec ends :: "regex \<Rightarrow> cursor \<Rightarrow> cursor list" where
  "ends Eps c = [c]"
| "ends (Class P) c = step_class P c"
| "ends WordB c = (if at_boundary c then [c] else [])"
| "ends Bol c = (if cur_pos c = 0 then [c] else [])"
| "ends Eol c = (if cur_rest c = [] \<or> cur_rest c = [CHR 0x0A] then [c] else [])"
| "ends (Cat a b) c = concat (map (ends b) (ends a c))"
| "ends (Alt a b) c = ends a c @ ends b c"
| "ends (Rep lo hi greedy r) c =
     rep_ends (ends r) greedy lo (case hi of None \<Rightarrow> length (cur_rest c) | Some h \<Rightarrow> h) c"

text \<open>\<open>pattern.finditer(text)\<close>: the non-overlapping matches from left to right, each
  as (start, end). The scan tries every position up to the end of the text; after a
  match it goes on at the match's end: \<open>skip\<close> counts the characters still covered by
  the last match (after an empty match, which no pattern of the registry has, the scan
  moves one character on).\<close>

fun finditer_from :: "regex \<Rightarrow> nat \<Rightarrow> nat \<Rightarrow> char option \<Rightarrow> string \<Rightarrow> (nat \<times> nat) list" where
  "finditer_from r skip i prev [] =
     (if skip > 0 then []
      else (case ends r (i, prev, []) of [] \<Rightarrow> [] | e # _ \<Rightarrow> [(i, cur_pos e)]))"
| "finditer_from r skip i prev (x # xs) =
     (if skip > 0 then finditer_from r (skip - 1) (Suc i) (Some x) xs
      else (case ends r (i, prev, x # xs) of
              [] \<Rightarrow> finditer_from r 0 (Suc i) (Some x) xs
            | e # _ \<Rightarrow> (i, cur_pos e) # finditer_from r (cur_pos e - Suc i) (Suc i) (Some x) xs))"

definition finditer :: "regex \<Rightarrow> string \<Rightarrow> (nat \<times> nat) list" where
  "finditer r s = finditer_from r 0 0 None s"

text \<open>\<open>re.match(pattern, s)\<close> as a truth value: the pattern matches at position 0.\<close>

definition re_match :: "regex \<Rightarrow> string \<Rightarrow> bool" where
  "re_match r s = (ends r (start_cursor s) \<noteq> [])"

fun seq :: "regex list \<Rightarrow> regex" where
  "seq [] = Eps"
| "seq [r] = r"
| "seq (r # rs) = Cat r (seq rs)"

definition lit :: "char \<Rightarrow> regex" where
  "lit ch = Class (\<lambda>c. c = ch)"

definition digit :: regex where
  "digit = Class is_decimal"

definition exactly :: "nat \<Rightarrow> regex \<Rightarrow> regex" where
  "exactly n r = Rep n (Some n) True r"

definition opt :: "regex \<Rightarrow> regex" where
  "opt r = Rep 0 (Some 1) True r"

section \<open>Pattern registry\<close>

datatype pii_type =
    Aadhaar | Pan | Credit_card | Email | Phone | Ifsc | Bank_account
  | Voter_id | Driving_license | Ip_address | Dob | Medical_id

definition upper_az :: regex where
  "upper_az = Class is_upper_az"

definition space :: regex where
  "space = Class is_space"

definition dash_or_space :: regex where
  "dash_or_space = Class (\<lambda>c. c = CHR ''-'' \<or> is_space c)"

definition alpha_az :: "char \<Rightarrow> bool" where
  "alpha_az c = (is_upper_az c \<or> is_lower_az c)"

text \<open>The keys of \<open>ENHANCED_PII_PATTERNS\<close> in the order of the dictionary, and the
  patterns. \<open>\d\<close> and \<open>\s\<close> are the classes \<open>is_decimal\<close> and \<open>is_space\<close>; the
  ranges \<open>[0-9]\<close>, \<open>[6-9]\<close>, \<open>[A-Z]\<close> and \<open>[a-z]\<close> are ranges of code points. Groups
  only matter for their grouping here: the engine reads \<open>match.group(0)\<close> alone.\<close>

definition pii_types :: "pii_type list" where
  "pii_types = [Aadhaar, Pan, Credit_card, Email, Phone, Ifsc, Bank_account,
     Voter_id, Driving_license, Ip_address, Dob, Medical_id]"

text \<open>
  \<^verbatim>\<open>
  aadhaar          \b(?:(\d{4}\s\d{4}\s\d{4})|(\d{12}))\b
  pan              \b([A-Z]{5}[0-9]{4}[A-Z])\b
  credit_card      \b(?:\d[ -]*?){13,19}\b
  email            \b[A-Za-z0-9._%+-]+@[A-Za-z0-9.-]+\.[A-Za-z]{2,}\b
  phone            \b(?:\+91[-\s]?)?(?:[6-9]\d{9}|[6-9]\d{2}[-\s]\d{3}[-\s]\d{4})\b
  ifsc             \b([A-Z]{4}0[A-Z0-9]{6})\b
  bank_account     \b\d{9,18}\b
  voter_id         \b([A-Z]{3}\d{7})\b
  driving_license  \b([A-Z]{2}\d{2}/\d{6}/\d{4})\b
  ip_address       \b(?:\d{1,3}\.){3}\d{1,3}\b
  dob              \b(\d{2}/\d{2}/\d{4})\b
  medical_id       \b(MED[A-Z0-9]{8})\b
  \<close>
\<close>

fun ENHANCED_PII_PATTERNS :: "pii_type \<Rightarrow> regex" where
  "ENHANCED_PII_PATTERNS Aadhaar =
     seq [WordB,
          Alt (seq [exactly 4 digit, space, exactly 4 digit, space, exactly 4 digit])
              (exactly 12 digit),
          WordB]"
| "ENHANCED_PII_PATTERNS Pan =
     seq [WordB, exactly 5 upper_az, exactly 4 (Class (in_range 48 57)), upper_az, WordB]"
| "ENHANCED_PII_PATTERNS Credit_card =
     seq [WordB,
          Rep 13 (Some 19) True
            (Cat digit (Rep 0 None False (Class (\<lambda>c. c = CHR '' '' \<or> c = CHR ''-'')))),
          WordB]"
| "ENHANCED_PII_PATTERNS Email =
     seq [WordB,
          Rep 1 None True (Class (\<lambda>c. alpha_az c \<or> in_range 48 57 c \<or> c \<in> set ''._%+-'')),
          lit CHR ''@'',
          Rep 1 None True (Class (\<lambda>c. alpha_az c \<or> in_range 48 57 c \<or> c \<in> set ''.-'')),
          lit CHR ''.'',
          Rep 2 None True (Class alpha_az),
          WordB]"
| "ENHANCED_PII_PATTERNS Phone =
     seq [WordB,
          opt (seq [lit CHR ''+'', lit CHR ''9'', lit CHR ''1'', opt dash_or_space]),
          Alt (seq [Class (in_range 54 57), exactly 9 digit])
              (seq [Class (in_range 54 57), exactly 2 digit, dash_or_space, exactly 3 digit,
                    dash_or_space, exactly 4 digit]),
          WordB]"
| "ENHANCED_PII_PATTERNS Ifsc =
     seq [WordB, exactly 4 upper_az, lit CHR ''0'',
          exactly 6 (Class (\<lambda>c. is_upper_az c \<or> in_range 48 57 c)), WordB]"
| "ENHANCED_PII_PATTERNS Bank_account =
     seq [WordB, Rep 9 (Some 18) True digit, WordB]"
| "ENHANCED_PII_PATTERNS Voter_id =
     seq [WordB, exactly 3 upper_az, exactly 7 digit, WordB]"
| "ENHANCED_PII_PATTERNS Driving_license =
     seq [WordB, exactly 2 upper_az, exactly 2 digit, lit CHR ''/'', exactly 6 digit,
          lit CHR ''/'', exactly 4 digit, WordB]"
| "ENHANCED_PII_PATTERNS Ip_address =
     seq [WordB, exactly 3 (Cat (Rep 1 (Some 3) True digit) (lit CHR ''.'')),
          Rep 1 (Some 3) True digit, WordB]"
| "ENHANCED_PII_PATTERNS Dob =
     seq [WordB, exactly 2 digit, lit CHR ''/'', exactly 2 digit, lit CHR ''/'', exactly 4 digit,
          WordB]"
| "ENHANCED_PII_PATTERNS Medical_id =
     seq [WordB, lit CHR ''M'', lit CHR ''E'', lit CHR ''D'',
          exactly 8 (Class (\<lambda>c. is_upper_az c \<or> in_range 48 57 c)), WordB]"

section \<open>Validators\<close>

datatype py_error = ValueError | IndexError

definition verhoeff_d :: "nat list list" where
  "verhoeff_d =
    [[0,1,2,3,4,5,6,7,8,9], [1,2,3,4,0,6,7,8,9,5], [2,3,4,0,1,7,8,9,5,6],
     [3,4,0,1,2,8,9,5,6,7], [4,0,1,2,3,9,5,6,7,8], [5,9,8,7,6,0,4,3,2,1],
     [6,5,9,8,7,1,0,4,3,2], [7,6,5,9,8,2,1,0,4,3], [8,7,6,5,9,3,2,1,0,4],
     [9,8,7,6,5,4,3,2,1,0]]"

definition verhoeff_p :: "nat list list" where
  "verhoeff_p =
    [[0,1,2,3,4,5,6,7,8,9], [1,5,7,6,2,8,3,0,9,4], [5,8,0,3,7,9,6,1,4,2],
     [8,9,1,6,0,4,3,5,2,7], [9,4,5,3,1,2,6,8,7,0], [4,2,8,6,5,7,3,9,0,1],
     [2,7,9,3,8,0,6,4,1,5], [7,0,4,6,9,1,3,2,5,8]]"

text \<open>\<open>table[i][j]\<close>; \<open>None\<close> stands for the IndexError of an index out of range.\<close>

definition lookup2 :: "nat list list \<Rightarrow> nat \<Rightarrow> nat \<Rightarrow> nat option" where
  "lookup2 table i j =
     (if i < length table \<and> j < length (table ! i) then Some (table ! i ! j) else None)"

text \<open>The loop of \<open>verhoeff_validate\<close> over \<open>enumerate(reversed(num))\<close>. \<open>None\<close> is any
  exception: \<open>int(item)\<close> raises on a character that is not a decimal digit.\<close>

fun verhoeff_loop :: "nat \<Rightarrow> nat \<Rightarrow> string \<Rightarrow> nat option" where
  "verhoeff_loop c i [] = Some c"
| "verhoeff_loop c i (item # rest) =
     (if is_decimal item
      then (case lookup2 verhoeff_p (i mod 8) (nat (digit_val item)) of
              None \<Rightarrow> None
            | Some k \<Rightarrow> (case lookup2 verhoeff_d c k of
                          None \<Rightarrow> None
                        | Some c' \<Rightarrow> verhoeff_loop c' (Suc i) rest))
      else None)"

definition verhoeff_validate :: "string \<Rightarrow> bool" where
  "verhoeff_validate num = (case verhoeff_loop 0 0 (rev num) of Some c \<Rightarrow> c = 0 | None \<Rightarrow> False)"

text \<open>The loop of \<open>luhn_check\<close> over \<open>reversed(digits)\<close>, with its two variables.\<close>

fun luhn_loop :: "int \<Rightarrow> bool \<Rightarrow> int list \<Rightarrow> int" where
  "luhn_loop checksum dbl [] = checksum"
| "luhn_loop checksum dbl (d # ds) =
     luhn_loop (checksum + (if dbl then (if d * 2 > 9 then d * 2 - 9 else d * 2) else d))
       (\<not> dbl) ds"

definition luhn_check :: "string \<Rightarrow> bool" where
  "luhn_check number =
     (let digits = map digit_val (strip_non_digits number)
      in if length digits < 13 \<or> length digits > 19 then False
         else luhn_loop 0 False (rev digits) mod 10 = 0)"

definition validate_indian_phone :: "string \<Rightarrow> bool" where
  "validate_indian_phone phone =
     (let digits = strip_non_digits phone
      in length digits = 10 \<and> hd digits \<in> set ''6789'')"

definition validate_ifsc :: "string \<Rightarrow> bool" where
  "validate_ifsc ifsc =
     re_match (seq [Bol, exactly 4 upper_az, lit CHR ''0'',
                    exactly 6 (Class (\<lambda>c. is_upper_az c \<or> in_range 48 57 c)), Eol]) (upper ifsc)"

definition validate_voter_id :: "string \<Rightarrow> bool" where
  "validate_voter_id voter_id =
     re_match (seq [Bol, exactly 3 upper_az, exactly 7 digit, Eol]) (upper voter_id)"

definition validate_driving_license :: "string \<Rightarrow> bool" where
  "validate_driving_license dl =
     re_match (seq [Bol, exactly 2 upper_az, exactly 2 digit, lit CHR ''/'', exactly 6 digit,
                    lit CHR ''/'', exactly 4 digit, Eol]) (upper dl)"

text \<open>\<open>p.isdigit()\<close>, and \<open>int(p)\<close> for a string that passed it: the superscript digits
  pass \<open>isdigit\<close> and make \<open>int\<close> raise. (The limit of CPython 3.11 on the length of a
  decimal string is not modelled.)\<close>

definition str_isdigit :: "string \<Rightarrow> bool" where
  "str_isdigit p = (p \<noteq> [] \<and> list_all isdigit p)"

definition int_of_digits :: "string \<Rightarrow> py_error + int" where
  "int_of_digits p =
     (if p \<noteq> [] \<and> list_all is_decimal p then Inr (foldl (\<lambda>a c. 10 * a + digit_val c) 0 p)
      else Inl ValueError)"

text \<open>\<open>all(0 <= int(p) <= 255 for p in parts if p.isdigit())\<close>: parts that fail
  \<open>isdigit\<close> are skipped, the first octet out of range ends the scan with False.\<close>

fun all_octets :: "string list \<Rightarrow> py_error + bool" where
  "all_octets [] = Inr True"
| "all_octets (p # ps) =
     (if str_isdigit p
      then (case int_of_digits p of
              Inl e \<Rightarrow> Inl e
            | Inr v \<Rightarrow> if 0 \<le> v \<and> v \<le> 255 then all_octets ps else Inr False)
      else all_octets ps)"

definition validate_ip :: "string \<Rightarrow> py_error + bool" where
  "validate_ip ip =
     (let parts = split_on CHR ''.'' ip
      in if length parts = 4 then all_octets parts else Inr False)"

text \<open>\<open>datetime.strptime(dob, '%d/%m/%Y')\<close> as CPython's \<open>_strptime\<close> does it: the
  format becomes one pattern with a group for each directive, matched at the start of
  the string; the match has to reach its end; the three numbers have to be a date.\<close>

definition strptime_d :: regex where
  "strptime_d =
     Alt (seq [lit CHR ''3'', Class (in_range 48 49)])
    (Alt (seq [Class (in_range 49 50), digit])
    (Alt (seq [lit CHR ''0'', Class (in_range 49 57)])
    (Alt (Class (in_range 49 57))
         (seq [lit CHR '' '', Class (in_range 49 57)]))))"

definition strptime_m :: regex where
  "strptime_m =
     Alt (seq [lit CHR ''1'', Class (in_range 48 50)])
    (Alt (seq [lit CHR ''0'', Class (in_range 49 57)])
         (Class (in_range 49 57)))"

definition strptime_Y :: regex where
  "strptime_Y = exactly 4 digit"

text \<open>Every way the pattern matches, in backtracking order, as the cursors after the day,
  the month and the year.\<close>

definition strptime_groups :: "string \<Rightarrow> (cursor \<times> cursor \<times> cursor \<times> cursor \<times> cursor) list" where
  "strptime_groups s =
     concat (map (\<lambda>c1. concat (map (\<lambda>c2. concat (map (\<lambda>c3. concat (map (\<lambda>c4.
       map (\<lambda>c5. (c1, c2, c3, c4, c5)) (ends strptime_Y c4))
       (ends (lit CHR ''/'') c3))) (ends strptime_m c2))) (ends (lit CHR ''/'') c1)))
       (ends strptime_d (start_cursor s)))"

definition is_leap :: "int \<Rightarrow> bool" where
  "is_leap y = (y mod 4 = 0 \<and> (y mod 100 \<noteq> 0 \<or> y mod 400 = 0))"

definition days_in_month :: "int \<Rightarrow> int \<Rightarrow> int" where
  "days_in_month y m =
     (if m = 2 then (if is_leap y then 29 else 28)
      else if m \<in> {4, 6, 9, 11} then 30 else 31)"

text \<open>The digits of a group as a number; a leading space of the day is skipped, as
  \<open>int\<close> does.\<close>

definition group_int :: "string \<Rightarrow> int" where
  "group_int g = foldl (\<lambda>a c. 10 * a + digit_val c) 0 (filter is_decimal g)"

definition strptime_dmY :: "string \<Rightarrow> py_error + (int \<times> int \<times> int)" where
  "strptime_dmY s =
     (case strptime_groups s of
        [] \<Rightarrow> Inl ValueError
      | (c1, c2, c3, c4, c5) # _ \<Rightarrow>
          if cur_pos c5 \<noteq> length s then Inl ValueError
          else let day = group_int (slice s 0 (cur_pos c1));
                   month = group_int (slice s (cur_pos c2) (cur_pos c3));
                   year = group_int (slice s (cur_pos c4) (cur_pos c5))
               in if 1 \<le> year \<and> 1 \<le> month \<and> month \<le> 12 \<and> 1 \<le> day
                     \<and> day \<le> days_in_month year month
                  then Inr (day, month, year) else Inl ValueError)"

definition validate_dob :: "string \<Rightarrow> bool" where
  "validate_dob dob = (case strptime_dmY dob of Inr _ \<Rightarrow> True | Inl _ \<Rightarrow> False)"

definition validate_medical_id :: "string \<Rightarrow> bool" where
  "validate_medical_id mid =
     re_match (seq [Bol, lit CHR ''M'', lit CHR ''E'', lit CHR ''D'',
                    exactly 8 (Class (\<lambda>c. is_upper_az c \<or> in_range 48 57 c)), Eol]) (upper mid)"

section \<open>Masking registry\<close>

text \<open>\<open>hashlib\<close> is a parameter of the model: the hexadecimal digest of the encoded
  string, for SHA-256 and for MD5.\<close>

record hashlib =
  sha256_hexdigest :: "string \<Rightarrow> string"
  md5_hexdigest :: "string \<Rightarrow> string"

text \<open>The loop shared by \<open>mask_credit_card_enhanced\<close> and \<open>mask_phone_enhanced\<close>: every
  character that passes \<open>isdigit\<close> is replaced by the next character of the masked digit
  string, every other character is kept. Reading past the end of the masked digits is
  an IndexError.\<close>

fun fill_digits :: "string \<Rightarrow> nat \<Rightarrow> string \<Rightarrow> string \<Rightarrow> py_error + string" where
  "fill_digits masked digit_idx result [] = Inr result"
| "fill_digits masked digit_idx result (ch # rest) =
     (if isdigit ch
      then (if digit_idx < length masked
            then fill_digits masked (Suc digit_idx) (result @ [masked ! digit_idx]) rest
            else Inl IndexError)
      else fill_digits masked digit_idx (result @ [ch]) rest)"

definition mask_credit_card_enhanced :: "string \<Rightarrow> py_error + string" where
  "mask_credit_card_enhanced cc =
     (let digits = strip_non_digits cc
      in if length digits < 13 then Inr cc
         else fill_digits (replicate (length digits - 4) CHR ''X'' @ last_n 4 digits) 0 [] cc)"

definition mask_phone_enhanced :: "string \<Rightarrow> py_error + string" where
  "mask_phone_enhanced phone =
     (let digits = strip_non_digits phone
      in if length digits < 10 then Inr phone
         else fill_digits (replicate (length digits - 4) CHR ''X'' @ last_n 4 digits) 0 [] phone)"

definition anonymize_bank_account :: "hashlib \<Rightarrow> string \<Rightarrow> string" where
  "anonymize_bank_account H account = ''ACCT_'' @ upper (take 12 (sha256_hexdigest H account))"

definition anonymize_ifsc :: "hashlib \<Rightarrow> string \<Rightarrow> string" where
  "anonymize_ifsc H ifsc = take 4 ifsc @ ''0'' @ upper (take 6 (md5_hexdigest H ifsc))"

definition mask_aadhaar :: "string \<Rightarrow> string" where
  "mask_aadhaar a =
     (let digits = strip_non_digits a
      in if length digits \<noteq> 12 then a
         else let masked = take 4 digits @ ''XXXX'' @ last_n 4 digits
              in if CHR '' '' \<in> set a
                 then take 4 masked @ '' '' @ slice masked 4 8 @ '' '' @ drop 8 masked
                 else masked)"

definition anonymize_pan :: "hashlib \<Rightarrow> string \<Rightarrow> string" where
  "anonymize_pan H pan = ''PAN_'' @ upper (take 10 (sha256_hexdigest H pan))"

text \<open>\<open>email.split("@", 1)\<close> has two parts when there is an \<open>@\<close>; otherwise the
  unpacking raises the ValueError that the function catches.\<close>

definition pseudo_email :: "string \<Rightarrow> string" where
  "pseudo_email email =
     (case dropWhile (\<lambda>c. c \<noteq> CHR ''@'') email of
        [] \<Rightarrow> ''xxxx@''
      | _ # domain \<Rightarrow> ''xxxx@'' @ domain)"

definition mask_voter_id :: "string \<Rightarrow> string" where
  "mask_voter_id vid = take 3 vid @ replicate 4 CHR ''X'' @ last_n 3 vid"

definition mask_driving_license :: "string \<Rightarrow> string" where
  "mask_driving_license dl =
     (let parts = split_on CHR ''/'' dl
      in if length parts = 3 then parts ! 0 @ ''/XXXXXX/'' @ parts ! 2 else dl)"

definition mask_ip :: "string \<Rightarrow> string" where
  "mask_ip ip = (let parts = split_on CHR ''.'' ip in join ''.'' (take 2 parts @ [''X'', ''X'']))"

definition mask_dob :: "string \<Rightarrow> string" where
  "mask_dob dob = ''XX/XX/'' @ last (split_on CHR ''/'' dob)"

definition anonymize_medical_id :: "hashlib \<Rightarrow> string \<Rightarrow> string" where
  "anonymize_medical_id H mid = ''MED'' @ upper (take 8 (sha256_hexdigest H mid))"

fun ENHANCED_DEIDENTIFY :: "hashlib \<Rightarrow> pii_type \<Rightarrow> string \<Rightarrow> py_error + string" where
  "ENHANCED_DEIDENTIFY H Credit_card raw = mask_credit_card_enhanced raw"
| "ENHANCED_DEIDENTIFY H Aadhaar raw = Inr (mask_aadhaar raw)"
| "ENHANCED_DEIDENTIFY H Pan raw = Inr (anonymize_pan H raw)"
| "ENHANCED_DEIDENTIFY H Email raw = Inr (pseudo_email raw)"
| "ENHANCED_DEIDENTIFY H Phone raw = mask_phone_enhanced raw"
| "ENHANCED_DEIDENTIFY H Ifsc raw = Inr (anonymize_ifsc H raw)"
| "ENHANCED_DEIDENTIFY H Bank_account raw = Inr (anonymize_bank_account H raw)"
| "ENHANCED_DEIDENTIFY H Voter_id raw = Inr (mask_voter_id raw)"
| "ENHANCED_DEIDENTIFY H Driving_license raw = Inr (mask_driving_license raw)"
| "ENHANCED_DEIDENTIFY H Ip_address raw = Inr (mask_ip raw)"
| "ENHANCED_DEIDENTIFY H Dob raw = Inr (mask_dob raw)"
| "ENHANCED_DEIDENTIFY H Medical_id raw = Inr (anonymize_medical_id H raw)"

section \<open>Detections and the detector\<close>

text \<open>\<open>EnhancedDetection\<close>. Confidences and thresholds are real numbers: the claims use
  their order only.\<close>

record detection =
  det_row_index :: int
  det_column_name :: string
  det_pii_type :: pii_type
  det_raw_value :: string
  det_masked_value :: string
  det_start :: nat
  det_end :: nat
  det_confidence :: real
  det_context :: string

definition calculate_confidence :: "pii_type \<Rightarrow> string \<Rightarrow> string \<Rightarrow> py_error + real" where
  "calculate_confidence pii_type match_text ctx =
     (let base_confidence = 1
      in if pii_type = Credit_card then (if luhn_check match_text then Inr 0.95 else Inr 0.3)
      else if pii_type = Aadhaar then
        (let digits = strip_non_digits match_text
         in if length digits = 12 \<and> verhoeff_validate digits then Inr 0.95
            else if length digits = 12 then Inr 0.7
            else Inr 0.3)
      else if pii_type = Phone then (if validate_indian_phone match_text then Inr 0.9 else Inr 0.4)
      else if pii_type = Ifsc then (if validate_ifsc match_text then Inr 0.95 else Inr 0.5)
      else if pii_type = Bank_account then
        (let digits = strip_non_digits match_text
         in if 9 \<le> length digits \<and> length digits \<le> 18
            then (let context_lower = lower ctx
                  in if list_ex (\<lambda>keyword. contains keyword context_lower)
                          [''account'', ''bank'', ''acc'', ''a/c'']
                     then Inr 0.8 else Inr 0.6)
            else Inr 0.3)
      else if pii_type = Voter_id then (if validate_voter_id match_text then Inr 0.9 else Inr 0.4)
      else if pii_type = Driving_license then
        (if validate_driving_license match_text then Inr 0.9 else Inr 0.4)
      else if pii_type = Ip_address then
        (case validate_ip match_text of
           Inl e \<Rightarrow> Inl e
         | Inr ok \<Rightarrow> if ok then Inr 0.95 else Inr 0.5)
      else if pii_type = Dob then (if validate_dob match_text then Inr 0.8 else Inr 0.3)
      else if pii_type = Medical_id then
        (if validate_medical_id match_text then Inr 0.7 else Inr 0.3)
      else Inr base_confidence)"

text \<open>An element of the result of \<open>find_all_enhanced\<close>: the type, the match (its span;
  \<open>match.group(0)\<close> is the slice of the text) and the confidence.\<close>

type_synonym candidate = "pii_type \<times> (nat \<times> nat) \<times> real"

definition cand_start :: "candidate \<Rightarrow> nat" where
  "cand_start m = fst (fst (snd m))"

text \<open>The inner loop of \<open>find_all_enhanced\<close>, over the matches of one pattern.\<close>

fun scan_matches ::
  "real \<Rightarrow> pii_type \<Rightarrow> string \<Rightarrow> string \<Rightarrow> (nat \<times> nat) list \<Rightarrow> candidate list
     \<Rightarrow> py_error + candidate list" where
  "scan_matches threshold pii_type text ctx [] results = Inr results"
| "scan_matches threshold pii_type text ctx (m # ms) results =
     (case calculate_confidence pii_type (slice text (fst m) (snd m)) ctx of
        Inl e \<Rightarrow> Inl e
      | Inr confidence \<Rightarrow>
          scan_matches threshold pii_type text ctx ms
            (if confidence \<ge> threshold then results @ [(pii_type, m, confidence)] else results))"

text \<open>The outer loop, over the items of the pattern dictionary.\<close>

fun scan_types ::
  "real \<Rightarrow> string \<Rightarrow> string \<Rightarrow> pii_type list \<Rightarrow> candidate list \<Rightarrow> py_error + candidate list" where
  "scan_types threshold text ctx [] results = Inr results"
| "scan_types threshold text ctx (pii_type # types) results =
     (case scan_matches threshold pii_type text ctx
             (finditer (ENHANCED_PII_PATTERNS pii_type) text) results of
        Inl e \<Rightarrow> Inl e
      | Inr results' \<Rightarrow> scan_types threshold text ctx types results')"

definition find_all_enhanced :: "real \<Rightarrow> string \<Rightarrow> string \<Rightarrow> py_error + candidate list" where
  "find_all_enhanced threshold text ctx = scan_types threshold text ctx pii_types []"

section \<open>Processor\<close>

text \<open>A \<open>Counter\<close> is a dictionary in insertion order; a missing key counts as 0 and is
  created by \<open>+= 1\<close>.\<close>

fun counter_incr :: "('k \<times> nat) list \<Rightarrow> 'k \<Rightarrow> ('k \<times> nat) list" where
  "counter_incr [] k = [(k, 1)]"
| "counter_incr ((k', n) # kvs) k =
     (if k' = k then (k', n + 1) # kvs else (k', n) # counter_incr kvs k)"

definition counter_get :: "('k \<times> nat) list \<Rightarrow> 'k \<Rightarrow> nat" where
  "counter_get cnt k = (case map_of cnt k of None \<Rightarrow> 0 | Some n \<Rightarrow> n)"

text \<open>The state of an \<open>EnhancedProcessor\<close>: the threshold of its detector, the
  \<open>Counter\<close> \<open>det_counts\<close> and the \<open>defaultdict(list)\<close> \<open>confidence_stats\<close>.\<close>

record processor =
  confidence_threshold :: real
  det_counts :: "(pii_type \<times> nat) list"
  confidence_stats :: "pii_type \<Rightarrow> real list"

text \<open>\<open>EnhancedProcessor.__init__\<close>.\<close>

definition new_processor :: "real \<Rightarrow> processor" where
  "new_processor threshold =
     \<lparr>confidence_threshold = threshold, det_counts = [], confidence_stats = (\<lambda>_. [])\<rparr>"

text \<open>\<open>all_matches.sort(key=lambda x: x[1].start(), reverse=True)\<close>: the sort is stable,
  also in reverse (CPython reverses the list, sorts it and reverses it again), so matches
  with the same start keep the order the detector gave them.\<close>

definition sort_by_start_desc :: "candidate list \<Rightarrow> candidate list" where
  "sort_by_start_desc ms = rev (sort_key cand_start (rev ms))"

text \<open>The loop of \<open>_deidentify_text_enhanced\<close> over the sorted matches. The loop state
  is the working copy \<open>new_text\<close>, the detections appended so far and the processor,
  whose counters the loop updates.\<close>

fun redact_loop ::
  "hashlib \<Rightarrow> string \<Rightarrow> string \<Rightarrow> candidate list \<Rightarrow> string \<times> detection list \<times> processor
     \<Rightarrow> py_error + (string \<times> detection list \<times> processor)" where
  "redact_loop H text ctx [] st = Inr st"
| "redact_loop H text ctx ((pii_type, (s, e), confidence) # ms) (new_text, detections, P) =
     (let raw = slice text s e
      in case ENHANCED_DEIDENTIFY H pii_type raw of
           Inl err \<Rightarrow> Inl err
         | Inr masked \<Rightarrow>
             redact_loop H text ctx ms
               (take s new_text @ masked @ drop e new_text,
                detections @
                  [\<lparr>det_row_index = -1, det_column_name = [], det_pii_type = pii_type,
                    det_raw_value = raw, det_masked_value = masked, det_start = s, det_end = e,
                    det_confidence = confidence, det_context = take 100 ctx\<rparr>],
                P\<lparr>det_counts := counter_incr (det_counts P) pii_type,
                  confidence_stats := (confidence_stats P)
                    (pii_type := confidence_stats P pii_type @ [confidence])\<rparr>))"

definition deidentify_text_enhanced ::
  "hashlib \<Rightarrow> processor \<Rightarrow> string \<Rightarrow> string
     \<Rightarrow> py_error + (string \<times> detection list \<times> processor)" where
  "deidentify_text_enhanced H P text ctx =
     (case find_all_enhanced (confidence_threshold P) text ctx of
        Inl err \<Rightarrow> Inl err
      | Inr all_matches \<Rightarrow>
          if all_matches = [] then Inr (text, [], P)
          else (case redact_loop H text ctx (sort_by_start_desc all_matches) (text, [], P) of
                  Inl err \<Rightarrow> Inl err
                | Inr (new_text, detections, P') \<Rightarrow> Inr (new_text, rev detections, P')))"

section \<open>Aggregator\<close>

text \<open>The part of the summary that is computed from the run (the timestamp and the two
  paths are left out). Sums and quotients are over the reals.\<close>

record summary =
  total_detections :: nat
  counts_by_type :: "(pii_type \<times> nat) list"
  unique_values_by_type :: "(pii_type \<times> nat) list"
  average_confidence_by_type :: "(pii_type \<times> real) list"
  estimated_precision :: "(pii_type \<times> real) list"

definition generate_summary :: "processor \<Rightarrow> detection list \<Rightarrow> summary" where
  "generate_summary P detections =
     \<lparr>total_detections = length detections,
      counts_by_type = det_counts P,
      unique_values_by_type =
        map (\<lambda>t. (t, length (remdups (map det_raw_value
                        (filter (\<lambda>d. det_pii_type d = t) detections)))))
            (map fst (det_counts P)),
      average_confidence_by_type =
        map (\<lambda>t. (t, if confidence_stats P t \<noteq> []
                      then sum_list (confidence_stats P t) / real (length (confidence_stats P t))
                      else 0))
            (map fst (det_counts P)),
      estimated_precision =
        map (\<lambda>t. (t, max 0.5 (if confidence_stats P t \<noteq> []
                      then real (length (filter (\<lambda>c. c > 0.8) (confidence_stats P t)))
                           / real (length (confidence_stats P t))
                      else 0)))
            (map fst (det_counts P))\<rparr>"

section \<open>Document adapters\<close>

text \<open>What a \<open>process_*\<close> method returns.\<close>

record run_result =
  run_summary :: summary
  run_detections :: "detection list"

definition tag :: "int \<Rightarrow> string \<Rightarrow> detection \<Rightarrow> detection" where
  "tag row col d = d\<lparr>det_row_index := row, det_column_name := col\<rparr>"

text \<open>\<open>process_txt_enhanced\<close> on the content of the input file: the masked text, the
  result and the processor after the run.\<close>

definition process_txt_enhanced ::
  "hashlib \<Rightarrow> processor \<Rightarrow> string \<Rightarrow> py_error + (string \<times> run_result \<times> processor)" where
  "process_txt_enhanced H P text =
     (case deidentify_text_enhanced H P text text of
        Inl err \<Rightarrow> Inl err
      | Inr (new_text, dets, P') \<Rightarrow>
          (let detections_log = map (tag 1 ''text'') dets
           in Inr (new_text,
                   \<lparr>run_summary = generate_summary P' detections_log,
                    run_detections = detections_log\<rparr>,
                   P')))"

text \<open>A parsed JSON document, as \<open>json.load\<close> returns it. An object is a dictionary in
  insertion order.\<close>

datatype json =
    JNull
  | JBool bool
  | JInt int
  | JFloat real
  | JStr string
  | JArr "json list"
  | JObj "(string \<times> json) list"










section \<open>Definitions used to state the properties\<close>

subsection \<open>The Luhn check of the specification\<close>

text \<open>The Luhn check as the specification words it: the digits are numbered from the
  right starting at 0, every second one (odd index) is doubled, 9 is subtracted from a
  doubled digit above 9, and the sum has to be divisible by 10.\<close>

definition luhn_term :: "nat \<Rightarrow> int \<Rightarrow> int" where
  "luhn_term i d = (if odd i then (if 2 * d > 9 then 2 * d - 9 else 2 * d) else d)"

definition luhn_spec :: "string \<Rightarrow> bool" where
  "luhn_spec number =
     (let ds = rev (map digit_val (filter is_decimal number)); n = length ds
      in 13 \<le> n \<and> n \<le> 19 \<and> (\<Sum>i\<leftarrow>[0..<n]. luhn_term i (ds ! i)) mod 10 = 0)"

subsection \<open>Stand-ins for library functions in evaluations\<close>

text \<open>A stand-in for \<open>hashlib\<close> in evaluations on inputs without a value of a tokenised
  type: no digest is looked at there.\<close>

definition inert_hashlib :: hashlib where
  "inert_hashlib = \<lparr>sha256_hexdigest = (\<lambda>_. []), md5_hexdigest = (\<lambda>_. [])\<rparr>"

text \<open>A stand-in for \<open>hashlib\<close> in evaluations that reach a digest. The one value
  hashed there is the tax ID \<open>ABCDE1234F\<close>, and on it the stand-in returns the SHA-256
  digest that \<open>hashlib\<close> computes for its UTF-8 encoding; every other digest has the
  length of a real one (64 and 32 hexadecimal digits) and is not looked at.\<close>

definition sample_hashlib :: hashlib where
  "sample_hashlib =
     \<lparr>sha256_hexdigest = (\<lambda>s. if s = ''ABCDE1234F''
          then ''6442fd73a940c1186d6268bd27f89233e12429902c7805037e8aab6e717be6d9''
          else replicate 64 CHR ''0''),
      md5_hexdigest = (\<lambda>_. replicate 32 CHR ''0'')\<rparr>"


subsection \<open>The language of a pattern\<close>

text \<open>The strings a pattern can consume, whatever the text around them (the assertions
  \<open>\b\<close>, \<open>^\<close> and \<open>$\<close> consume nothing). The matcher is proved sound for it below.\<close>

primrec lang :: "regex \<Rightarrow> string \<Rightarrow> bool" where
  "lang Eps w = (w = [])"
| "lang (Class P) w = (\<exists>c. w = [c] \<and> P c)"
| "lang WordB w = (w = [])"
| "lang Bol w = (w = [])"
| "lang Eol w = (w = [])"
| "lang (Cat a b) w = (\<exists>u v. w = u @ v \<and> lang a u \<and> lang b v)"
| "lang (Alt a b) w = (lang a w \<or> lang b w)"
| "lang (Rep lo hi greedy r) w =
     (\<exists>ws. w = concat ws \<and> lo \<le> length ws
        \<and> (case hi of None \<Rightarrow> True | Some h \<Rightarrow> length ws \<le> h)
        \<and> (\<forall>u \<in> set ws. lang r u))"

text \<open>The matcher went from cursor \<open>c\<close> to cursor \<open>e\<close> over the string \<open>w\<close>.\<close>

definition consumes :: "cursor \<Rightarrow> string \<Rightarrow> cursor \<Rightarrow> bool" where
  "consumes c w e = (cur_rest c = w @ cur_rest e \<and> cur_pos e = cur_pos c + length w)"

text \<open>Every character class of the pattern lies within \<open>P\<close>.\<close>

primrec classes_within :: "(char \<Rightarrow> bool) \<Rightarrow> regex \<Rightarrow> bool" where
  "classes_within P Eps = True"
| "classes_within P (Class Q) = (\<forall>c. Q c \<longrightarrow> P c)"
| "classes_within P WordB = True"
| "classes_within P Bol = True"
| "classes_within P Eol = True"
| "classes_within P (Cat a b) = (classes_within P a \<and> classes_within P b)"
| "classes_within P (Alt a b) = (classes_within P a \<and> classes_within P b)"
| "classes_within P (Rep lo hi greedy r) = classes_within P r"

subsection \<open>Candidates and detections\<close>

text \<open>The confidence of a candidate as a number, and all candidates of a field before
  the threshold is applied, in the order in which the detector finds them.\<close>

definition confidence_of :: "pii_type \<Rightarrow> string \<Rightarrow> string \<Rightarrow> real" where
  "confidence_of t m ctx = (case calculate_confidence t m ctx of Inr c \<Rightarrow> c | Inl _ \<Rightarrow> 0)"

definition candidates_of_type :: "string \<Rightarrow> string \<Rightarrow> pii_type \<Rightarrow> candidate list" where
  "candidates_of_type txt ctx t =
     map (\<lambda>m. (t, m, confidence_of t (slice txt (fst m) (snd m)) ctx))
       (finditer (ENHANCED_PII_PATTERNS t) txt)"

definition candidates_of :: "string \<Rightarrow> string \<Rightarrow> candidate list" where
  "candidates_of txt ctx = concat (map (candidates_of_type txt ctx) pii_types)"

definition accepted :: "real \<Rightarrow> candidate \<Rightarrow> bool" where
  "accepted threshold m = (threshold \<le> snd (snd m))"

definition is_match :: "string \<Rightarrow> candidate \<Rightarrow> bool" where
  "is_match txt m = (fst (snd m) \<in> set (finditer (ENHANCED_PII_PATTERNS (fst m)) txt))"

text \<open>The accepted candidates in the order in which the redaction loop visits them.\<close>

definition accepted_sorted :: "real \<Rightarrow> string \<Rightarrow> string \<Rightarrow> candidate list" where
  "accepted_sorted thr txt ctx = sort_by_start_desc (filter (accepted thr) (candidates_of txt ctx))"

text \<open>The masked value of a match, and the detection the loop builds for a candidate.\<close>

definition masked_of :: "hashlib \<Rightarrow> pii_type \<Rightarrow> string \<Rightarrow> string" where
  "masked_of H t raw = (case ENHANCED_DEIDENTIFY H t raw of Inr m \<Rightarrow> m | Inl _ \<Rightarrow> [])"

fun detection_of :: "hashlib \<Rightarrow> string \<Rightarrow> string \<Rightarrow> candidate \<Rightarrow> detection" where
  "detection_of H txt ctx (t, (s, e), c) =
     \<lparr>det_row_index = -1, det_column_name = [], det_pii_type = t,
      det_raw_value = slice txt s e, det_masked_value = masked_of H t (slice txt s e),
      det_start = s, det_end = e, det_confidence = c, det_context = take 100 ctx\<rparr>"

text \<open>One replacement on the working copy, at the offsets the detection records, and a
  sequence of them from left to right of the list.\<close>

definition splice_in :: "string \<Rightarrow> detection \<Rightarrow> string" where
  "splice_in new_text d = take (det_start d) new_text @ det_masked_value d @ drop (det_end d) new_text"

definition apply_splices :: "string \<Rightarrow> detection list \<Rightarrow> string" where
  "apply_splices txt ds = foldl splice_in txt ds"

definition count_type :: "pii_type \<Rightarrow> detection list \<Rightarrow> nat" where
  "count_type t ds = length (filter (\<lambda>d. det_pii_type d = t) ds)"

text \<open>The matches in the order in which the loop replaced them: the loop appends one
  detection per replacement and the engine returns the reversed list.\<close>

definition applied_matches ::
  "py_error + (string \<times> detection list \<times> processor) \<Rightarrow> py_error + (pii_type \<times> nat \<times> nat) list" where
  "applied_matches r =
     map_sum id (\<lambda>(new_text, ds, P). map (\<lambda>d. (det_pii_type d, det_start d, det_end d)) (rev ds)) r"

text \<open>The candidate that a detection records: type, span and confidence.\<close>

definition candidate_of :: "detection \<Rightarrow> candidate" where
  "candidate_of d = (det_pii_type d, (det_start d, det_end d), det_confidence d)"

text \<open>The detections of a list, taken from left to right, do not overlap: none starts
  before position \<open>pos\<close>, and each of the following ones starts at or after the end of
  the one before it.\<close>

fun spans_disjoint :: "nat \<Rightarrow> detection list \<Rightarrow> bool" where
  "spans_disjoint pos [] = True"
| "spans_disjoint pos (d # ds) = (pos \<le> det_start d \<and> spans_disjoint (det_end d) ds)"

text \<open>The text from position \<open>pos\<close> on, with the span of every detection of the list
  replaced by the detection's masked value and every character outside the spans
  kept.\<close>

fun replace_from :: "string \<Rightarrow> nat \<Rightarrow> detection list \<Rightarrow> string" where
  "replace_from txt pos [] = drop pos txt"
| "replace_from txt pos (d # ds) =
     slice txt pos (det_start d) @ det_masked_value d @ replace_from txt (det_end d) ds"

subsection \<open>Format preservation\<close>


text \<open>What the digit-masking functions keep: the masked value has the length of the
  original, a character that is not a digit is unchanged, and a digit is unchanged or
  replaced by the filler \<open>X\<close>.\<close>

definition layout_kept :: "string \<Rightarrow> string \<Rightarrow> bool" where
  "layout_kept raw masked =
     list_all2 (\<lambda>r m. if isdigit r then m = r \<or> m = CHR ''X'' else m = r) raw masked"

subsection \<open>Flat records\<close>



section \<open>Validators: properties\<close>

lemma luhn_term_Suc_Suc: "luhn_term (Suc (Suc i)) d = luhn_term i d"
  by (simp add: luhn_term_def)

lemma luhn_term_0: "luhn_term 0 d = d"
  by (simp add: luhn_term_def)

lemma luhn_term_1: "luhn_term (Suc 0) d = (if d * 2 > 9 then d * 2 - 9 else d * 2)"
  by (simp add: luhn_term_def mult.commute)

lemma luhn_loop_sum:
  "luhn_loop c dbl ds =
     c + (\<Sum>i\<leftarrow>[0..<length ds]. luhn_term (if dbl then Suc i else i) (ds ! i))"
proof (induction ds arbitrary: c dbl)
  case Nil
  then show ?case by simp
next
  case (Cons d ds)
  have shift: "[0..<length (d # ds)] = 0 # map Suc [0..<length ds]"
    by (simp add: upt_conv_Cons map_Suc_upt del: upt_Suc)
  show ?case
  proof (cases dbl)
    case True
    then show ?thesis
      unfolding shift
      by (simp add: Cons.IH comp_def luhn_term_Suc_Suc luhn_term_1)
  next
    case False
    then show ?thesis
      unfolding shift
      by (simp add: Cons.IH comp_def luhn_term_0)
  qed
qed

text \<open>
  C6. For every input string, \<open>luhn_check\<close> returns true if and only if the string,
  stripped of everything but its digits, has between 13 and 19 digits and passes the
  Luhn check of the specification (\<open>luhn_spec\<close>): doubling every second digit from the
  right, subtracting 9 from a doubled digit above 9, the sum is divisible by 10.
\<close>

theorem luhn_check_refines_spec: "luhn_check number = luhn_spec number"
  by (auto simp: luhn_check_def luhn_spec_def Let_def strip_non_digits_def luhn_loop_sum)

text \<open>
  C8. The IP validator is claimed to return true exactly for four dot-separated octets
  between 0 and 255. The code skips every part that is not made of digits instead of
  rejecting it: \<open>validate_ip("a.b.c.d")\<close> is true.
\<close>

theorem validate_ip_accepts_letters: "validate_ip ''a.b.c.d'' = Inr True"
  by code_simp

text \<open>
  C9. Every validator is claimed to return a boolean on every string, never raising.
  \<open>validate_ip\<close> guards \<open>int(p)\<close> with \<open>p.isdigit()\<close>, which the superscript two
  (U+00B2) passes while \<open>int\<close> rejects it: on the string of that character followed by
  \<open>.0.0.0\<close> the ValueError leaves the function.
\<close>

theorem validate_ip_raises_on_superscript:
  "validate_ip [CHR 0xB2, CHR ''.'', CHR ''0'', CHR ''.'', CHR ''0'', CHR ''.'', CHR ''0'']
     = Inl ValueError"
  by code_simp

section \<open>The matcher is sound for the language of its pattern\<close>

lemma consumes_refl: "consumes c [] c"
  by (simp add: consumes_def)

lemma consumes_trans: "consumes c u d \<Longrightarrow> consumes d v e \<Longrightarrow> consumes c (u @ v) e"
  by (simp add: consumes_def)

lemma step_class_consumes:
  "e \<in> set (step_class P c) \<Longrightarrow> \<exists>x. P x \<and> consumes c [x] e"
  by (cases "(P, c)" rule: step_class.cases)
     (auto simp: consumes_def cur_rest_def cur_pos_def split: if_splits)

lemma rep_ends_consumes:
  assumes f: "\<And>c e. e \<in> set (f c) \<Longrightarrow> \<exists>u. L u \<and> consumes c u e"
  shows "e \<in> set (rep_ends f greedy lo n c) \<Longrightarrow>
     \<exists>ws. lo \<le> length ws \<and> length ws \<le> n \<and> (\<forall>u \<in> set ws. L u) \<and> consumes c (concat ws) e"
proof (induction n arbitrary: lo c)
  case 0
  then show ?case
    by (auto simp: consumes_refl split: if_splits intro!: exI [of _ "[]"])
next
  case (Suc n)
  have step: "\<exists>ws. lo \<le> length ws \<and> length ws \<le> Suc n \<and> (\<forall>u \<in> set ws. L u)
        \<and> consumes c (concat ws) e"
    if d: "d \<in> set (f c)" and e: "e \<in> set (rep_ends f greedy (lo - 1) n d)" for d
  proof -
    from f [OF d] obtain u where u: "L u" "consumes c u d" by blast
    from Suc.IH [OF e] obtain ws where ws: "lo - 1 \<le> length ws" "length ws \<le> n"
      "\<forall>u \<in> set ws. L u" "consumes d (concat ws) e" by blast
    have "consumes c (concat (u # ws)) e"
      using consumes_trans [OF u(2) ws(4)] by simp
    with u ws show ?thesis
      by (intro exI [of _ "u # ws"]) auto
  qed
  show ?case
  proof (cases "lo > 0")
    case True
    with Suc.prems obtain d where "d \<in> set (f c)" "e \<in> set (rep_ends f greedy (lo - 1) n d)"
      by auto
    then show ?thesis by (rule step)
  next
    case False
    then have lo: "lo = 0" by simp
    from Suc.prems lo have "e = c \<or> (\<exists>d \<in> set (f c). e \<in> set (rep_ends f greedy (lo - 1) n d))"
      by (auto split: if_splits)
    then show ?thesis
    proof
      assume "e = c"
      with lo show ?thesis
        by (auto simp: consumes_refl intro!: exI [of _ "[]"])
    next
      assume "\<exists>d \<in> set (f c). e \<in> set (rep_ends f greedy (lo - 1) n d)"
      then show ?thesis using step by blast
    qed
  qed
qed

lemma ends_consumes: "e \<in> set (ends r c) \<Longrightarrow> \<exists>w. lang r w \<and> consumes c w e"
proof (induction r arbitrary: c e)
  case Eps
  then show ?case by (simp add: consumes_refl)
next
  case (Class P)
  then have "e \<in> set (step_class P c)" by simp
  from step_class_consumes [OF this] obtain x where "P x" "consumes c [x] e" by blast
  then show ?case by (intro exI [of _ "[x]"]) simp
next
  case WordB
  then show ?case by (simp add: consumes_refl split: if_splits)
next
  case Bol
  then show ?case by (simp add: consumes_refl split: if_splits)
next
  case Eol
  then show ?case by (simp add: consumes_refl split: if_splits)
next
  case (Cat a b)
  from Cat.prems obtain d where d: "d \<in> set (ends a c)" and e: "e \<in> set (ends b d)"
    by auto
  from Cat.IH(1) [OF d] obtain u where u: "lang a u" "consumes c u d" by blast
  from Cat.IH(2) [OF e] obtain v where v: "lang b v" "consumes d v e" by blast
  have "lang (Cat a b) (u @ v)" using u(1) v(1) by auto
  with consumes_trans [OF u(2) v(2)] show ?case by blast
next
  case (Alt a b)
  then have "e \<in> set (ends a c) \<or> e \<in> set (ends b c)" by simp
  then show ?case
  proof
    assume "e \<in> set (ends a c)"
    from Alt.IH(1) [OF this] obtain w where "lang a w" "consumes c w e" by blast
    then show ?thesis by (intro exI [of _ w]) simp
  next
    assume "e \<in> set (ends b c)"
    from Alt.IH(2) [OF this] obtain w where "lang b w" "consumes c w e" by blast
    then show ?thesis by (intro exI [of _ w]) simp
  qed
next
  case (Rep lo hi greedy r)
  let ?n = "case hi of None \<Rightarrow> length (cur_rest c) | Some h \<Rightarrow> h"
  from Rep.prems have "e \<in> set (rep_ends (ends r) greedy lo ?n c)" by simp
  from rep_ends_consumes [of "ends r" "lang r", OF Rep.IH this]
  obtain ws where ws: "lo \<le> length ws" "length ws \<le> ?n" "\<forall>u \<in> set ws. lang r u"
    "consumes c (concat ws) e" by blast
  have "case hi of None \<Rightarrow> True | Some h \<Rightarrow> length ws \<le> h"
    using ws(2) by (cases hi) simp_all
  with ws(1,3) have "lang (Rep lo hi greedy r) (concat ws)"
    unfolding lang.simps by blast
  with ws(4) show ?case by blast
qed

lemma finditer_from_lang:
  assumes "(s, e) \<in> set (finditer_from r skip i prev rest)"
    and "rest = drop i text" and "i \<le> length text"
  shows "\<exists>w. lang r w \<and> w = slice text s e \<and> e = s + length w \<and> e \<le> length text"
  using assms
proof (induction r skip i prev rest arbitrary: rule: finditer_from.induct)
  case (1 r skip i prev)
  show ?case
  proof (cases "ends r (i, prev, [])")
    case Nil
    with "1.prems"(1) show ?thesis by (simp split: if_splits)
  next
    case (Cons c es)
    with "1.prems"(1) have se: "s = i" "e = cur_pos c"
      by (simp_all split: if_splits)
    have "c \<in> set (ends r (i, prev, []))" using Cons by simp
    from ends_consumes [OF this] obtain w where w: "lang r w" "consumes (i, prev, []) w c" by blast
    then have "w = []" "cur_pos c = i"
      by (auto simp: consumes_def cur_rest_def cur_pos_def)
    with w se "1.prems" show ?thesis by (simp add: slice_def)
  qed
next
  case (2 r skip i prev x xs)
  have xs: "xs = drop (Suc i) text"
  proof -
    have "drop (Suc i) text = tl (drop i text)" by (simp add: drop_Suc tl_drop)
    then show ?thesis using "2.prems"(2) [symmetric] by simp
  qed
  have i: "Suc i \<le> length text"
  proof (rule ccontr)
    assume "\<not> Suc i \<le> length text"
    then have "drop i text = []" by simp
    then show False using "2.prems"(2) by simp
  qed
  show ?case
  proof (cases "skip > 0")
    case True
    with "2.prems"(1) have "(s, e) \<in> set (finditer_from r (skip - 1) (Suc i) (Some x) xs)"
      by simp
    from "2.IH"(1) [OF True this xs i] show ?thesis .
  next
    case False
    show ?thesis
    proof (cases "ends r (i, prev, x # xs)")
      case Nil
      with False "2.prems"(1) have "(s, e) \<in> set (finditer_from r 0 (Suc i) (Some x) xs)"
        by simp
      from "2.IH"(2) [OF False Nil this xs i] show ?thesis .
    next
      case (Cons c es)
      with False "2.prems"(1) consider "s = i" "e = cur_pos c"
        | "(s, e) \<in> set (finditer_from r (cur_pos c - Suc i) (Suc i) (Some x) xs)"
        by (auto simp: cur_pos_def)
      then show ?thesis
      proof cases
        case 1
        have "c \<in> set (ends r (i, prev, x # xs))" using Cons by simp
        from ends_consumes [OF this] obtain w where w: "lang r w" "consumes (i, prev, x # xs) w c"
          by blast
        then have eq: "drop i text = w @ cur_rest c" "cur_pos c = i + length w"
          using "2.prems"(2) by (auto simp: consumes_def cur_rest_def cur_pos_def)
        have "take (length w) (drop i text) = w" using eq(1) by simp
        moreover have "i + length w \<le> length text"
        proof -
          have "length (drop i text) \<ge> length w" using eq(1) by simp
          then show ?thesis using "2.prems"(3) by simp
        qed
        ultimately show ?thesis using w(1) 1 eq(2) by (auto simp: slice_def)
      next
        case 2
        from "2.IH"(3) [OF False Cons this xs i] show ?thesis .
      qed
    qed
  qed
qed

text \<open>Every match of \<open>finditer\<close> is a slice of the text that lies in the language of
  the pattern.\<close>

lemma finditer_lang:
  assumes "(s, e) \<in> set (finditer r text)"
  shows "lang r (slice text s e) \<and> s \<le> e \<and> e \<le> length text"
  using finditer_from_lang [of s e r 0 0 None "text" "text"] assms
  by (auto simp: finditer_def)

lemma lang_classes_within: "lang r w \<Longrightarrow> classes_within P r \<Longrightarrow> list_all P w"
proof (induction r arbitrary: w)
  case (Rep lo hi greedy r)
  from Rep.prems(1) obtain ws where ws: "w = concat ws" "\<forall>u \<in> set ws. lang r u"
    by auto
  have "\<forall>u \<in> set ws. list_all P u"
    using ws(2) Rep.IH Rep.prems(2) by simp
  then show ?case
    unfolding ws(1) by (induction ws) simp_all
qed auto

lemma finditer_classes_within:
  assumes "(s, e) \<in> set (finditer r txt)" and "classes_within P r"
  shows "list_all P (slice txt s e)"
  using finditer_lang [OF assms(1)] assms(2) lang_classes_within by blast




section \<open>Facts about characters and small lists\<close>

lemma code_literals:
  "code CHR '' '' = 32" "code CHR ''-'' = 45" "code CHR ''+'' = 43" "code CHR ''.'' = 46"
  "code CHR ''/'' = 47" "code CHR ''@'' = 64" "code CHR ''X'' = 88"
  by (simp_all add: code_def)

lemma isdigit_literals:
  "\<not> isdigit CHR '' ''" "\<not> isdigit CHR ''-''" "\<not> isdigit CHR ''+''" "\<not> isdigit CHR ''.''"
  "\<not> isdigit CHR ''/''" "\<not> isdigit CHR ''X''"
  by (simp_all add: isdigit_def is_decimal_def in_range_def code_literals)

lemma is_decimal_literals: "is_decimal CHR ''9''" "is_decimal CHR ''1''" "is_decimal CHR ''0''"
  by (simp_all add: is_decimal_def in_range_def code_def)


lemma not_digit_space: "is_space c \<Longrightarrow> \<not> isdigit c"
  by (auto simp: is_space_def isdigit_def is_decimal_def in_range_def)


lemma in_range_digits_decimal: "in_range 54 57 c \<Longrightarrow> is_decimal c"
  by (simp add: is_decimal_def in_range_def)

lemma decimal_isdigit: "is_decimal c \<Longrightarrow> isdigit c"
  by (simp add: isdigit_def)






lemma filter_isdigit_decimal:
  "list_all (\<lambda>c. isdigit c \<longrightarrow> is_decimal c) raw \<Longrightarrow> filter isdigit raw = filter is_decimal raw"
  by (induction raw) (auto simp: decimal_isdigit)





lemma split_on_parts:
  "list_all (\<lambda>c. P c \<or> c = sep) s \<Longrightarrow> \<forall>p \<in> set (split_on sep s). list_all P p"
  by (induction s) (auto split: list.splits)



lemma not_Inl_ex: "(\<And>err. x \<noteq> Inl err) \<Longrightarrow> \<exists>c. x = Inr c"
  by (cases x) auto

section \<open>The detector never raises on a match\<close>

lemma card_classes:
  "classes_within (\<lambda>c. isdigit c \<longrightarrow> is_decimal c) (ENHANCED_PII_PATTERNS Credit_card)"
  by (auto simp: digit_def isdigit_literals)

lemma phone_classes:
  "classes_within (\<lambda>c. isdigit c \<longrightarrow> is_decimal c) (ENHANCED_PII_PATTERNS Phone)"
  by (auto simp: digit_def lit_def opt_def exactly_def dash_or_space_def isdigit_literals
      not_digit_space in_range_digits_decimal is_decimal_literals)

lemma ip_classes:
  "classes_within (\<lambda>c. is_decimal c \<or> c = CHR ''.'') (ENHANCED_PII_PATTERNS Ip_address)"
  by (auto simp: digit_def lit_def exactly_def)

lemma all_octets_total:
  "\<forall>p \<in> set ps. list_all is_decimal p \<Longrightarrow> \<exists>b. all_octets ps = Inr b"
  by (induction ps) (auto simp: int_of_digits_def str_isdigit_def)

lemma validate_ip_total:
  "list_all (\<lambda>c. is_decimal c \<or> c = CHR ''.'') s \<Longrightarrow> \<exists>b. validate_ip s = Inr b"
  using split_on_parts [of is_decimal "CHR ''.''" s] all_octets_total
  by (auto simp: validate_ip_def Let_def)

text \<open>On the text of a match the confidence scorer returns a number: the one validator
  that can raise, \<open>validate_ip\<close>, only sees digits and dots there.\<close>

lemma calculate_confidence_total:
  assumes "(s, e) \<in> set (finditer (ENHANCED_PII_PATTERNS t) txt)"
  shows "\<exists>c. calculate_confidence t (slice txt s e) ctx = Inr c"
proof (rule not_Inl_ex)
  fix err
  show "calculate_confidence t (slice txt s e) ctx \<noteq> Inl err"
  proof (cases "t = Ip_address")
    case True
    from finditer_classes_within [OF assms [unfolded True] ip_classes]
    obtain b where "validate_ip (slice txt s e) = Inr b"
      using validate_ip_total by blast
    with True show ?thesis by (simp add: calculate_confidence_def)
  next
    case False
    then show ?thesis by (simp add: calculate_confidence_def Let_def)
  qed
qed

lemma scan_matches_eq:
  assumes "set ms \<subseteq> set (finditer (ENHANCED_PII_PATTERNS t) txt)"
  shows "scan_matches thr t txt ctx ms results =
     Inr (results @ filter (accepted thr)
            (map (\<lambda>m. (t, m, confidence_of t (slice txt (fst m) (snd m)) ctx)) ms))"
  using assms
proof (induction ms arbitrary: results)
  case Nil
  then show ?case by simp
next
  case (Cons m ms)
  have "(fst m, snd m) \<in> set (finditer (ENHANCED_PII_PATTERNS t) txt)"
    using Cons.prems by simp
  from calculate_confidence_total [OF this]
  obtain c where c: "calculate_confidence t (slice txt (fst m) (snd m)) ctx = Inr c" by blast
  then have co: "confidence_of t (slice txt (fst m) (snd m)) ctx = c"
    by (simp add: confidence_of_def)
  have ms: "set ms \<subseteq> set (finditer (ENHANCED_PII_PATTERNS t) txt)"
    using Cons.prems by simp
  show ?case
    by (simp add: c co Cons.IH [OF ms] accepted_def)
qed

lemma scan_types_eq:
  "scan_types thr txt ctx ts results =
     Inr (results @ filter (accepted thr) (concat (map (candidates_of_type txt ctx) ts)))"
proof (induction ts arbitrary: results)
  case Nil
  then show ?case by simp
next
  case (Cons t ts)
  show ?case
    by (simp add: scan_matches_eq [OF subset_refl] Cons.IH candidates_of_type_def)
qed

text \<open>The detector returns the candidates that reach the threshold, in their order.\<close>

lemma find_all_enhanced_eq:
  "find_all_enhanced thr txt ctx = Inr (filter (accepted thr) (candidates_of txt ctx))"
  by (simp add: find_all_enhanced_def scan_types_eq candidates_of_def)

lemma candidates_of_iff:
  "(t, (s, e), c) \<in> set (candidates_of txt ctx) \<longleftrightarrow>
     (s, e) \<in> set (finditer (ENHANCED_PII_PATTERNS t) txt)
     \<and> calculate_confidence t (slice txt s e) ctx = Inr c"
proof -
  have all: "set pii_types = UNIV"
  proof -
    have "t \<in> set pii_types" for t by (cases t) (simp_all add: pii_types_def)
    then show ?thesis by auto
  qed
  have conf: "calculate_confidence t (slice txt s e) ctx = Inr c \<longleftrightarrow>
      confidence_of t (slice txt s e) ctx = c"
    if "(s, e) \<in> set (finditer (ENHANCED_PII_PATTERNS t) txt)"
    using calculate_confidence_total [OF that, of ctx] by (auto simp: confidence_of_def)
  have "(t, (s, e), c) \<in> set (candidates_of txt ctx) \<longleftrightarrow>
      (s, e) \<in> set (finditer (ENHANCED_PII_PATTERNS t) txt)
      \<and> confidence_of t (slice txt s e) ctx = c"
    by (auto simp: candidates_of_def candidates_of_type_def all image_iff)
  with conf show ?thesis by blast
qed

text \<open>
  C4. For every text, context and pair of thresholds \<open>t1 \<le> t2\<close>, the detector returns
  a result at both thresholds, and the number of detections at \<open>t2\<close> is at most the
  number at \<open>t1\<close>.
\<close>

theorem threshold_monotone:
  assumes "t1 \<le> t2"
  shows "\<exists>r1 r2. find_all_enhanced t1 txt ctx = Inr r1 \<and> find_all_enhanced t2 txt ctx = Inr r2
           \<and> length r2 \<le> length r1"
proof -
  have "length (filter (accepted t2) xs) \<le> length (filter (accepted t1) xs)" for xs :: "candidate list"
  proof (induction xs)
    case (Cons x xs)
    then show ?case using assms by (auto simp: accepted_def)
  qed simp
  then show ?thesis by (simp add: find_all_enhanced_eq)
qed

lemma find_all_low_eval:
  "find_all_enhanced 0.5 ''9876543210'' []
     = Inr [(Phone, (0, 10), 0.9), (Bank_account, (0, 10), 0.6)]"
  by code_simp

lemma find_all_high_eval:
  "find_all_enhanced 0.7 ''9876543210'' [] = Inr [(Phone, (0, 10), 0.9)]"
  by code_simp

text \<open>The theorem at the thresholds 0.5 and 0.7 on the field \<open>9876543210\<close>: the phone
  candidate (0.9) and the bank-account candidate (0.6) at 0.5, the phone candidate alone
  at 0.7.\<close>

theorem threshold_monotone_witness:
  "(0.5 :: real) \<le> 0.7
   \<and> (\<exists>r1 r2. find_all_enhanced 0.5 ''9876543210'' [] = Inr r1
         \<and> find_all_enhanced 0.7 ''9876543210'' [] = Inr r2
         \<and> length r2 \<le> length r1 \<and> length r1 = 2 \<and> length r2 = 1)"
proof -
  have le: "(0.5 :: real) \<le> 0.7" by simp
  from threshold_monotone [OF le, of "''9876543210''" "[]"]
  obtain r1 r2 where r: "find_all_enhanced 0.5 ''9876543210'' [] = Inr r1"
    "find_all_enhanced 0.7 ''9876543210'' [] = Inr r2" "length r2 \<le> length r1"
    by blast
  from r(1) have l1: "length r1 = 2" unfolding find_all_low_eval by auto
  from r(2) have l2: "length r2 = 1" unfolding find_all_high_eval by auto
  have "\<exists>r1 r2. find_all_enhanced 0.5 ''9876543210'' [] = Inr r1
         \<and> find_all_enhanced 0.7 ''9876543210'' [] = Inr r2
         \<and> length r2 \<le> length r1 \<and> length r1 = 2 \<and> length r2 = 1"
    by (intro exI [of _ r1] exI [of _ r2] conjI r l1 l2)
  with le show ?thesis by (rule conjI)
qed

section \<open>Masking registry: properties\<close>

lemma layout_kept_refl: "layout_kept raw raw"
  by (simp add: layout_kept_def list_all2_same)




lemma fill_digits_layout:
  assumes "length masked = length digits"
    and "\<And>k. k < length digits \<Longrightarrow> masked ! k = digits ! k \<or> masked ! k = CHR ''X''"
  shows "filter isdigit rest = drop idx digits \<Longrightarrow>
     \<exists>out. fill_digits masked idx result rest = Inr (result @ out) \<and> layout_kept rest out"
proof (induction rest arbitrary: idx result)
  case Nil
  then show ?case by (simp add: layout_kept_def)
next
  case (Cons ch rest)
  show ?case
  proof (cases "isdigit ch")
    case True
    with Cons.prems have d: "drop idx digits = ch # filter isdigit rest" by simp
    have idx: "idx < length digits"
      using d by (metis drop_all linorder_not_le list.discI)
    have ch: "digits ! idx = ch" and rest: "filter isdigit rest = drop (Suc idx) digits"
      using d idx by (simp_all add: Cons_nth_drop_Suc [symmetric])
    from Cons.IH [OF rest, of "result @ [masked ! idx]"]
    obtain out where out: "fill_digits masked (Suc idx) (result @ [masked ! idx]) rest
        = Inr ((result @ [masked ! idx]) @ out)" "layout_kept rest out" by blast
    have "layout_kept (ch # rest) (masked ! idx # out)"
      using out(2) assms(2) [OF idx] True ch by (simp add: layout_kept_def)
    with out(1) True idx assms(1) show ?thesis
      by (intro exI [of _ "masked ! idx # out"]) simp
  next
    case False
    with Cons.prems have rest: "filter isdigit rest = drop idx digits" by simp
    from Cons.IH [OF rest, of "result @ [ch]"]
    obtain out where out: "fill_digits masked idx (result @ [ch]) rest = Inr ((result @ [ch]) @ out)"
      "layout_kept rest out" by blast
    have "layout_kept (ch # rest) (ch # out)"
      using out(2) False by (simp add: layout_kept_def)
    with out(1) False show ?thesis
      by (intro exI [of _ "ch # out"]) simp
  qed
qed

lemma masked_digits_nth:
  assumes "4 \<le> length digits" and "k < length digits"
  shows "(replicate (length digits - 4) CHR ''X'' @ last_n 4 digits) ! k = digits ! k
       \<or> (replicate (length digits - 4) CHR ''X'' @ last_n 4 digits) ! k = CHR ''X''"
  using assms by (auto simp: nth_append last_n_def)

lemma masked_digits_length:
  "4 \<le> length digits \<Longrightarrow>
     length (replicate (length digits - 4) CHR ''X'' @ last_n 4 digits) = length digits"
  by (simp add: last_n_def)

lemma fill_masked_layout:
  assumes "list_all (\<lambda>c. isdigit c \<longrightarrow> is_decimal c) raw" and "4 \<le> length (strip_non_digits raw)"
  shows "\<exists>out. fill_digits (replicate (length (strip_non_digits raw) - 4) CHR ''X''
                  @ last_n 4 (strip_non_digits raw)) 0 [] raw = Inr out \<and> layout_kept raw out"
proof -
  have "filter isdigit raw = drop 0 (strip_non_digits raw)"
    using filter_isdigit_decimal [OF assms(1)] by (simp add: strip_non_digits_def)
  from fill_digits_layout [OF masked_digits_length [OF assms(2)]
      masked_digits_nth [OF assms(2)] this, of "[]"]
  show ?thesis by simp
qed

lemma mask_credit_card_layout:
  assumes "list_all (\<lambda>c. isdigit c \<longrightarrow> is_decimal c) raw"
  shows "\<exists>out. mask_credit_card_enhanced raw = Inr out \<and> layout_kept raw out"
proof (cases "length (strip_non_digits raw) < 13")
  case True
  then show ?thesis by (simp add: mask_credit_card_enhanced_def layout_kept_refl)
next
  case False
  then have "4 \<le> length (strip_non_digits raw)" by simp
  from fill_masked_layout [OF assms this] False show ?thesis
    by (simp add: mask_credit_card_enhanced_def Let_def)
qed

lemma mask_phone_layout:
  assumes "list_all (\<lambda>c. isdigit c \<longrightarrow> is_decimal c) raw"
  shows "\<exists>out. mask_phone_enhanced raw = Inr out \<and> layout_kept raw out"
proof (cases "length (strip_non_digits raw) < 10")
  case True
  then show ?thesis by (simp add: mask_phone_enhanced_def layout_kept_refl)
next
  case False
  then have "4 \<le> length (strip_non_digits raw)" by simp
  from fill_masked_layout [OF assms this] False show ?thesis
    by (simp add: mask_phone_enhanced_def Let_def)
qed

text \<open>The masking function of every type returns a value on every match of the type's
  pattern: the IndexError of the card and phone maskers needs a character that passes
  \<open>isdigit\<close> and is no decimal digit, which their patterns do not match.\<close>

lemma deidentify_total:
  assumes "(s, e) \<in> set (finditer (ENHANCED_PII_PATTERNS t) txt)"
  shows "\<exists>masked. ENHANCED_DEIDENTIFY H t (slice txt s e) = Inr masked"
proof (cases t)
  case Credit_card
  from finditer_classes_within [OF assms [unfolded Credit_card] card_classes]
    mask_credit_card_layout Credit_card
  show ?thesis by auto
next
  case Phone
  from finditer_classes_within [OF assms [unfolded Phone] phone_classes]
    mask_phone_layout Phone
  show ?thesis by auto
qed simp_all


















section \<open>Redaction engine: properties\<close>

lemma counter_get_incr:
  "counter_get (counter_incr cnt k) t = counter_get cnt t + (if t = k then 1 else 0)"
  by (induction cnt) (auto simp: counter_get_def)

lemma count_type_types:
  "count_type t ds = length (filter (\<lambda>x. x = t) (map det_pii_type ds))"
  by (simp add: count_type_def filter_map comp_def)

lemma count_type_tag: "count_type t (map (tag row col) ds) = count_type t ds"
  by (simp add: count_type_types tag_def comp_def)

lemma count_type_rev: "count_type t (rev ds) = count_type t ds"
  by (simp add: count_type_types rev_map [symmetric] rev_filter [symmetric])

lemma redact_loop_eq:
  assumes "\<forall>m \<in> set ms. is_match txt m"
  shows "\<exists>P'. redact_loop H txt ctx ms (nt, ds, P) =
       Inr (apply_splices nt (map (detection_of H txt ctx) ms),
            ds @ map (detection_of H txt ctx) ms, P')
     \<and> (\<forall>t. counter_get (det_counts P') t =
            counter_get (det_counts P) t + count_type t (map (detection_of H txt ctx) ms))"
  using assms
proof (induction ms arbitrary: nt ds P)
  case Nil
  then show ?case by (simp add: apply_splices_def count_type_def)
next
  case (Cons m ms)
  obtain t s e c where m: "m = (t, (s, e), c)" by (cases m) auto
  from Cons.prems have "(s, e) \<in> set (finditer (ENHANCED_PII_PATTERNS t) txt)"
    by (simp add: m is_match_def)
  from deidentify_total [OF this, of H]
  obtain masked where masked: "ENHANCED_DEIDENTIFY H t (slice txt s e) = Inr masked" by blast
  then have mo: "masked_of H t (slice txt s e) = masked" by (simp add: masked_of_def)
  let ?d = "detection_of H txt ctx m"
  let ?P = "P\<lparr>det_counts := counter_incr (det_counts P) t,
              confidence_stats := (confidence_stats P)
                (t := confidence_stats P t @ [c])\<rparr>"
  have ms: "\<forall>m \<in> set ms. is_match txt m" using Cons.prems by simp
  from Cons.IH [OF ms, of "splice_in nt ?d" "ds @ [?d]" ?P]
  obtain P' where P': "redact_loop H txt ctx ms (splice_in nt ?d, ds @ [?d], ?P) =
       Inr (apply_splices (splice_in nt ?d) (map (detection_of H txt ctx) ms),
            (ds @ [?d]) @ map (detection_of H txt ctx) ms, P')"
     "\<forall>t'. counter_get (det_counts P') t' =
            counter_get (det_counts ?P) t' + count_type t' (map (detection_of H txt ctx) ms)"
    by blast
  have step: "redact_loop H txt ctx (m # ms) (nt, ds, P) =
      redact_loop H txt ctx ms (splice_in nt ?d, ds @ [?d], ?P)"
    by (simp add: m masked mo splice_in_def)
  have cnt: "\<forall>t'. counter_get (det_counts P') t' =
      counter_get (det_counts P) t' + count_type t' (map (detection_of H txt ctx) (m # ms))"
    using P'(2) by (auto simp: counter_get_incr count_type_def m)
  show ?case
    using P'(1) cnt unfolding step by (intro exI [of _ P']) (simp add: apply_splices_def)
qed

lemma is_match_candidates: "m \<in> set (candidates_of txt ctx) \<Longrightarrow> is_match txt m"
proof -
  assume a: "m \<in> set (candidates_of txt ctx)"
  obtain t s e c where m: "m = (t, (s, e), c)" by (cases m) auto
  from a candidates_of_iff [of t s e c "txt" ctx] show ?thesis
    by (simp add: m is_match_def)
qed

lemma set_accepted_sorted:
  "set (accepted_sorted thr txt ctx) = {m \<in> set (candidates_of txt ctx). accepted thr m}"
  by (auto simp: accepted_sorted_def sort_by_start_desc_def)

text \<open>What the engine returns: the replacements of the accepted candidates applied in
  sorted order, their detections in reverse, and the counters raised by one per
  detection.\<close>

lemma deidentify_text_enhanced_eq:
  "\<exists>P'. deidentify_text_enhanced H P txt ctx =
       Inr (apply_splices txt (map (detection_of H txt ctx)
              (accepted_sorted (confidence_threshold P) txt ctx)),
            rev (map (detection_of H txt ctx) (accepted_sorted (confidence_threshold P) txt ctx)),
            P')
     \<and> (\<forall>t. counter_get (det_counts P') t = counter_get (det_counts P) t
            + count_type t (map (detection_of H txt ctx)
                (accepted_sorted (confidence_threshold P) txt ctx)))"
proof (cases "filter (accepted (confidence_threshold P)) (candidates_of txt ctx) = []")
  case True
  then have "accepted_sorted (confidence_threshold P) txt ctx = []"
    by (simp add: accepted_sorted_def sort_by_start_desc_def)
  with True show ?thesis
    by (simp add: deidentify_text_enhanced_def find_all_enhanced_eq apply_splices_def
        count_type_def)
next
  case False
  have "\<forall>m \<in> set (accepted_sorted (confidence_threshold P) txt ctx). is_match txt m"
    using is_match_candidates by (auto simp: set_accepted_sorted)
  from redact_loop_eq [OF this, of H ctx "txt" "[]" P]
  obtain P' where P': "redact_loop H txt ctx (accepted_sorted (confidence_threshold P) txt ctx)
        (txt, [], P) =
       Inr (apply_splices txt (map (detection_of H txt ctx)
              (accepted_sorted (confidence_threshold P) txt ctx)),
            [] @ map (detection_of H txt ctx) (accepted_sorted (confidence_threshold P) txt ctx),
            P')"
    "\<forall>t. counter_get (det_counts P') t = counter_get (det_counts P) t
            + count_type t (map (detection_of H txt ctx)
                (accepted_sorted (confidence_threshold P) txt ctx))"
    by blast
  show ?thesis
    using False P'
    by (intro exI [of _ P'])
       (simp add: deidentify_text_enhanced_def find_all_enhanced_eq accepted_sorted_def)
qed


lemma detection_of_simps:
  "det_start (detection_of H txt ctx m) = cand_start m"
  "det_pii_type (detection_of H txt ctx m) = fst m"
  "det_end (detection_of H txt ctx m) = snd (fst (snd m))"
  "det_confidence (detection_of H txt ctx m) = snd (snd m)"
  "det_raw_value (detection_of H txt ctx m) = slice txt (cand_start m) (snd (fst (snd m)))"
  "det_masked_value (detection_of H txt ctx m) =
     masked_of H (fst m) (slice txt (cand_start m) (snd (fst (snd m))))"
  by (cases m; cases "fst (snd m)"; simp add: cand_start_def)+

lemma starts_desc: "sorted_wrt (\<ge>) (map cand_start (sort_by_start_desc ms))"
proof -
  have "sorted (map cand_start (sort_key cand_start (rev ms)))"
    by (rule sorted_sort_key)
  then show ?thesis
    by (simp add: sort_by_start_desc_def rev_map [symmetric] sorted_wrt_rev)
qed

lemma accepted_sorted_member:
  assumes "m \<in> set (accepted_sorted thr txt ctx)"
  shows "(cand_start m, snd (fst (snd m))) \<in> set (finditer (ENHANCED_PII_PATTERNS (fst m)) txt)
     \<and> calculate_confidence (fst m) (slice txt (cand_start m) (snd (fst (snd m)))) ctx
         = Inr (snd (snd m))
     \<and> thr \<le> snd (snd m)"
proof -
  obtain t s e c where m: "m = (t, (s, e), c)" by (cases m) auto
  from assms have "m \<in> set (candidates_of txt ctx)" "accepted thr m"
    by (simp_all add: set_accepted_sorted)
  with candidates_of_iff [of t s e c "txt" ctx] show ?thesis
    by (simp add: m cand_start_def accepted_def)
qed

text \<open>The stable sort keeps candidates with the same start offset in the order in which
  the detector found them.\<close>

lemma candidate_of_detection_of: "candidate_of (detection_of H txt ctx m) = m"
  by (cases m; cases "fst (snd m)") (simp add: candidate_of_def)

lemma ties_keep_order:
  "filter (\<lambda>m. cand_start m = k) (sort_by_start_desc ms) = filter (\<lambda>m. cand_start m = k) ms"
proof -
  have "filter (\<lambda>m. cand_start m = k) (sort_by_start_desc ms)
      = rev (filter (\<lambda>m. cand_start m = k) (sort_key cand_start (rev ms)))"
    by (simp add: sort_by_start_desc_def rev_filter)
  also have "\<dots> = rev (filter (\<lambda>m. cand_start m = k) (rev ms))"
    by (simp only: sort_key_stable)
  also have "\<dots> = filter (\<lambda>m. cand_start m = k) ms"
    by (simp add: rev_filter)
  finally show ?thesis .
qed

lemma applied_ties:
  "map candidate_of (filter (\<lambda>d. det_start d = k) (map (detection_of H txt ctx) (sort_by_start_desc ms)))
     = filter (\<lambda>m. cand_start m = k) ms"
proof -
  have "filter (\<lambda>d. det_start d = k) (map (detection_of H txt ctx) (sort_by_start_desc ms))
      = map (detection_of H txt ctx) (filter (\<lambda>m. cand_start m = k) (sort_by_start_desc ms))"
    by (simp add: filter_map comp_def detection_of_simps)
  then show ?thesis
    by (simp add: ties_keep_order comp_def candidate_of_detection_of)
qed

lemma detections_within:
  assumes "d \<in> set (map (detection_of H txt ctx) (accepted_sorted thr txt ctx))"
  shows "(det_start d, det_end d) \<in> set (finditer (ENHANCED_PII_PATTERNS (det_pii_type d)) txt)
           \<and> det_start d \<le> det_end d \<and> det_end d \<le> length txt
           \<and> det_raw_value d = slice txt (det_start d) (det_end d)"
proof -
  from assms obtain m where m: "m \<in> set (accepted_sorted thr txt ctx)"
    "d = detection_of H txt ctx m" by auto
  from accepted_sorted_member [OF m(1)]
  have f: "(cand_start m, snd (fst (snd m))) \<in> set (finditer (ENHANCED_PII_PATTERNS (fst m)) txt)"
    by simp
  from finditer_lang [OF f] f show ?thesis
    by (simp add: m(2) detection_of_simps)
qed

text \<open>When the detections do not overlap, the replacements do not disturb one another:
  the working copy ends as the text with every span replaced by its masked value.\<close>

lemma apply_splices_snoc: "apply_splices txt (ds @ [d]) = splice_in (apply_splices txt ds) d"
  by (simp add: apply_splices_def)

lemma apply_splices_disjoint:
  assumes "spans_disjoint p ds"
    and "\<forall>d \<in> set ds. det_start d \<le> det_end d \<and> det_end d \<le> length txt"
  shows "apply_splices txt (rev ds) = take p txt @ replace_from txt p ds"
  using assms
proof (induction ds arbitrary: p)
  case Nil
  then show ?case by (simp add: apply_splices_def)
next
  case (Cons d ds)
  let ?s = "det_start d" and ?e = "det_end d"
  from Cons.prems have p: "p \<le> ?s" and se: "?s \<le> ?e" and e: "?e \<le> length txt"
    and rest: "spans_disjoint ?e ds"
      "\<forall>d \<in> set ds. det_start d \<le> det_end d \<and> det_end d \<le> length txt"
    by simp_all
  from Cons.IH [OF rest]
  have ih: "apply_splices txt (rev ds) = take ?e txt @ replace_from txt ?e ds" .
  have len: "length (take ?e txt) = ?e" using e by simp
  have t: "take ?s (take ?e txt @ replace_from txt ?e ds) = take ?s txt"
    using se e by (simp add: min_def)
  have d: "drop ?e (take ?e txt @ replace_from txt ?e ds) = replace_from txt ?e ds"
    using e by simp
  have pre: "take p txt @ slice txt p ?s = take ?s txt"
    using p take_add [of p "?s - p" "txt"] by (simp add: slice_def)
  have "apply_splices txt (rev (d # ds)) = splice_in (apply_splices txt (rev ds)) d"
    by (simp add: apply_splices_snoc)
  also have "\<dots> = take ?s txt @ det_masked_value d @ replace_from txt ?e ds"
    unfolding ih splice_in_def t d ..
  also have "\<dots> = take p txt @ replace_from txt p (d # ds)"
    using pre by simp
  finally show ?case .
qed

text \<open>A match of the e-mail pattern has an \<open>@\<close>, and none before the first one.\<close>

lemma email_match_has_at:
  assumes "(s, e) \<in> set (finditer (ENHANCED_PII_PATTERNS Email) txt)"
  shows "\<exists>local domain. slice txt s e = local @ ''@'' @ domain \<and> CHR ''@'' \<notin> set local"
proof -
  let ?A = "\<lambda>c. alpha_az c \<or> in_range 48 57 c \<or> c \<in> set ''._%+-''"
  from finditer_lang [OF assms]
  have "lang (ENHANCED_PII_PATTERNS Email) (slice txt s e)" by simp
  then obtain u v where uv: "slice txt s e = u @ CHR ''@'' # v"
    "lang (Rep 1 None True (Class ?A)) u"
    by (auto simp: lit_def simp del: lang.simps(8))
  have "classes_within ?A (Rep 1 None True (Class ?A))" by simp
  from lang_classes_within [OF uv(2) this] have "list_all ?A u" .
  moreover have "\<not> ?A (CHR ''@'')"
    by (simp add: alpha_az_def is_upper_az_def is_lower_az_def in_range_def code_def)
  ultimately have "CHR ''@'' \<notin> set u"
    unfolding list_all_iff by blast
  with uv(1) show ?thesis by (intro exI [of _ u] exI [of _ v]) simp
qed

lemma first_at_split:
  assumes "CHR ''@'' \<notin> set local"
  shows "dropWhile (\<lambda>c. c \<noteq> CHR ''@'') (local @ ''@'' @ domain) = ''@'' @ domain"
  using assms by (induction local) auto

lemma pseudo_email_split:
  assumes "CHR ''@'' \<notin> set local"
  shows "pseudo_email (local @ ''@'' @ domain) = ''xxxx@'' @ domain"
  using first_at_split [OF assms, of domain] by (simp add: pseudo_email_def)

text \<open>
  C1, as amended. For every field text, context and threshold the engine returns a
  result; the replacements are applied to the working copy in the order of the reversed
  detection list, whose start offsets never increase (they are not strictly decreasing:
  matches of different types can start at the same offset, and the stable sort then
  keeps them in the order in which the detector returned them: for every offset, the
  replacements that start there are those of the detector's matches starting there, in
  the detector's order); every detection records the span of a match of its type's
  pattern in the original text, within the bounds of that text, and the raw value is
  the slice of the original text at that span; the returned list is in ascending order
  of start offset.
\<close>

theorem redaction_order_and_offsets:
  "\<exists>new_text dets P' all_matches.
     deidentify_text_enhanced H P txt ctx = Inr (new_text, dets, P')
     \<and> find_all_enhanced (confidence_threshold P) txt ctx = Inr all_matches
     \<and> new_text = apply_splices txt (rev dets)
     \<and> sorted_wrt (\<ge>) (map det_start (rev dets))
     \<and> (\<forall>k. map candidate_of (filter (\<lambda>d. det_start d = k) (rev dets))
             = filter (\<lambda>m. cand_start m = k) all_matches)
     \<and> (\<forall>d \<in> set dets.
           (det_start d, det_end d) \<in> set (finditer (ENHANCED_PII_PATTERNS (det_pii_type d)) txt)
           \<and> det_start d \<le> det_end d \<and> det_end d \<le> length txt
           \<and> det_raw_value d = slice txt (det_start d) (det_end d))
     \<and> sorted (map det_start dets)"
proof -
  let ?A = "filter (accepted (confidence_threshold P)) (candidates_of txt ctx)"
  let ?S = "accepted_sorted (confidence_threshold P) txt ctx"
  let ?D = "detection_of H txt ctx"
  from deidentify_text_enhanced_eq [of H P "txt" ctx]
  obtain P' where r: "deidentify_text_enhanced H P txt ctx =
      Inr (apply_splices txt (map ?D ?S), rev (map ?D ?S), P')" by blast
  have fa: "find_all_enhanced (confidence_threshold P) txt ctx = Inr ?A"
    by (rule find_all_enhanced_eq)
  have starts: "map det_start (map ?D ?S) = map cand_start ?S"
    by (simp add: detection_of_simps comp_def)
  have "sorted_wrt (\<ge>) (map cand_start ?S)"
    unfolding accepted_sorted_def by (rule starts_desc)
  then have desc: "sorted_wrt (\<ge>) (map det_start (map ?D ?S))"
    by (simp only: starts)
  have asc: "sorted (map det_start (rev (map ?D ?S)))"
    using desc by (simp add: rev_map [symmetric] sorted_wrt_rev)
  have ties: "map candidate_of (filter (\<lambda>d. det_start d = k) (map ?D ?S))
      = filter (\<lambda>m. cand_start m = k) ?A" for k
    unfolding accepted_sorted_def by (rule applied_ties)
  have offs: "(det_start d, det_end d) \<in> set (finditer (ENHANCED_PII_PATTERNS (det_pii_type d)) txt)
           \<and> det_start d \<le> det_end d \<and> det_end d \<le> length txt
           \<and> det_raw_value d = slice txt (det_start d) (det_end d)"
    if "d \<in> set (rev (map ?D ?S))" for d
    using that detections_within [of d H "txt" ctx "confidence_threshold P"] by simp
  show ?thesis
    using r fa desc asc offs ties
    by (intro exI [of _ "apply_splices txt (map ?D ?S)"] exI [of _ "rev (map ?D ?S)"]
        exI [of _ P'] exI [of _ ?A]) simp
qed

lemma card_field_eval:
  "applied_matches (deidentify_text_enhanced inert_hashlib (new_processor 0.7)
      ''4111 1111 1111 1111'' []) = Inr [(Aadhaar, 0, 14), (Credit_card, 0, 19)]"
  by code_simp

lemma card_field_text_eval:
  "map_sum id fst (deidentify_text_enhanced inert_hashlib (new_processor 0.7)
      ''4111 1111 1111 1111'' []) = Inr ''XXXX XXXX XXXX 1111''"
  by code_simp

lemma card_field_detector_eval:
  "map_sum id (map fst) (find_all_enhanced 0.7 ''4111 1111 1111 1111'' [])
     = Inr [Aadhaar, Credit_card]"
  by code_simp

text \<open>The claim as stated fails: in the field \<open>4111 1111 1111 1111\<close> at threshold 0.7
  the national-ID match (0 to 14) and the card match (0 to 19) start at the same
  offset, so the replacements are not applied in strictly decreasing order of start.\<close>

theorem equal_starts_not_strictly_decreasing:
  "applied_matches (deidentify_text_enhanced inert_hashlib (new_processor 0.7)
      ''4111 1111 1111 1111'' []) = Inr [(Aadhaar, 0, 14), (Credit_card, 0, 19)]
   \<and> \<not> sorted_wrt (>) (map (fst \<circ> snd) [(Aadhaar, 0::nat, 14::nat), (Credit_card, 0, 19)])"
  using card_field_eval by simp

text \<open>The amended theorem at that field: the detector returns the national-ID match
  before the card match, both start at offset 0, and the replacements are applied in
  that order, so that the card's replacement is the one left in the output.\<close>

theorem redaction_order_and_offsets_witness:
  "\<exists>new_text dets P' all_matches.
     deidentify_text_enhanced inert_hashlib (new_processor 0.7) ''4111 1111 1111 1111'' []
       = Inr (new_text, dets, P')
     \<and> find_all_enhanced 0.7 ''4111 1111 1111 1111'' [] = Inr all_matches
     \<and> map fst all_matches = [Aadhaar, Credit_card]
     \<and> map det_pii_type dets = [Credit_card, Aadhaar]
     \<and> new_text = apply_splices ''4111 1111 1111 1111'' (rev dets)
     \<and> new_text = ''XXXX XXXX XXXX 1111''
     \<and> sorted_wrt (\<ge>) (map det_start (rev dets))
     \<and> map candidate_of (filter (\<lambda>d. det_start d = 0) (rev dets))
         = filter (\<lambda>m. cand_start m = 0) all_matches
     \<and> list_all (\<lambda>d. det_start d \<le> det_end d \<and> det_end d \<le> length ''4111 1111 1111 1111''
           \<and> det_raw_value d = slice ''4111 1111 1111 1111'' (det_start d) (det_end d)) dets
     \<and> sorted (map det_start dets)"
proof -
  have thr: "confidence_threshold (new_processor 0.7) = 0.7"
    by (simp add: new_processor_def)
  from redaction_order_and_offsets [of inert_hashlib "new_processor 0.7"
      "''4111 1111 1111 1111''" "[]"]
  obtain new_text dets P' all_matches where r:
    "deidentify_text_enhanced inert_hashlib (new_processor 0.7) ''4111 1111 1111 1111'' []
       = Inr (new_text, dets, P')"
    "find_all_enhanced (confidence_threshold (new_processor 0.7)) ''4111 1111 1111 1111'' []
       = Inr all_matches"
    "new_text = apply_splices ''4111 1111 1111 1111'' (rev dets)"
    "sorted_wrt (\<ge>) (map det_start (rev dets))"
    "\<forall>k. map candidate_of (filter (\<lambda>d. det_start d = k) (rev dets))
             = filter (\<lambda>m. cand_start m = k) all_matches"
    "\<forall>d \<in> set dets.
           (det_start d, det_end d)
             \<in> set (finditer (ENHANCED_PII_PATTERNS (det_pii_type d)) ''4111 1111 1111 1111'')
           \<and> det_start d \<le> det_end d \<and> det_end d \<le> length ''4111 1111 1111 1111''
           \<and> det_raw_value d = slice ''4111 1111 1111 1111'' (det_start d) (det_end d)"
    "sorted (map det_start dets)"
    by blast
  from r(2) have fa: "find_all_enhanced 0.7 ''4111 1111 1111 1111'' [] = Inr all_matches"
    unfolding thr .
  from card_field_detector_eval have det: "map fst all_matches = [Aadhaar, Credit_card]"
    unfolding fa by simp
  from card_field_text_eval have nt: "new_text = ''XXXX XXXX XXXX 1111''"
    unfolding r(1) by simp
  from r(5) have ties: "map candidate_of (filter (\<lambda>d. det_start d = 0) (rev dets))
         = filter (\<lambda>m. cand_start m = 0) all_matches" by (rule spec)
  from card_field_eval r(1)
  have "map (\<lambda>d. (det_pii_type d, det_start d, det_end d)) (rev dets)
      = [(Aadhaar, 0, 14), (Credit_card, 0, 19)]"
    by (simp add: applied_matches_def)
  then have "map fst (map (\<lambda>d. (det_pii_type d, det_start d, det_end d)) (rev dets))
      = [Aadhaar, Credit_card]" by simp
  then have "rev (map det_pii_type dets) = [Aadhaar, Credit_card]"
    by (simp add: comp_def rev_map)
  then have "rev (rev (map det_pii_type dets)) = rev [Aadhaar, Credit_card]"
    by (rule arg_cong)
  then have types: "map det_pii_type dets = [Credit_card, Aadhaar]"
    by simp
  have la: "list_all (\<lambda>d. det_start d \<le> det_end d \<and> det_end d \<le> length ''4111 1111 1111 1111''
           \<and> det_raw_value d = slice ''4111 1111 1111 1111'' (det_start d) (det_end d)) dets"
    using r(6) unfolding list_all_iff by blast
  show ?thesis
    by (intro exI [of _ new_text] exI [of _ dets] exI [of _ P'] exI [of _ all_matches]
        conjI r(1) fa det types r(3) nt r(4) ties la r(7))
qed

text \<open>
  C2, as amended. For every field text, context and threshold the engine returns a
  result in which every detection has a confidence at or above the threshold; a
  candidate (a match of a pattern in the text) whose computed confidence is below the
  threshold has no detection; the per-type counters grow by the number of detections of
  the type and by nothing else; and the output text is the input with the replacements
  of the detections applied and no other change, so that no replacement is made for a
  candidate below the threshold. (Its characters can still be masked by the replacement
  of an accepted match of another type that overlaps it.)
\<close>

theorem below_threshold_discarded:
  "\<exists>new_text dets P'.
     deidentify_text_enhanced H P txt ctx = Inr (new_text, dets, P')
     \<and> (\<forall>d \<in> set dets. confidence_threshold P \<le> det_confidence d)
     \<and> (\<forall>t s e c. (s, e) \<in> set (finditer (ENHANCED_PII_PATTERNS t) txt)
           \<and> calculate_confidence t (slice txt s e) ctx = Inr c
           \<and> c < confidence_threshold P
           \<longrightarrow> \<not> (\<exists>d \<in> set dets. det_pii_type d = t \<and> det_start d = s \<and> det_end d = e))
     \<and> (\<forall>t. counter_get (det_counts P') t = counter_get (det_counts P) t + count_type t dets)
     \<and> new_text = apply_splices txt (rev dets)"
proof -
  let ?S = "accepted_sorted (confidence_threshold P) txt ctx"
  let ?D = "detection_of H txt ctx"
  from deidentify_text_enhanced_eq [of H P "txt" ctx]
  obtain P' where r: "deidentify_text_enhanced H P txt ctx =
      Inr (apply_splices txt (map ?D ?S), rev (map ?D ?S), P')"
    and cnt: "\<forall>t. counter_get (det_counts P') t = counter_get (det_counts P) t
        + count_type t (map ?D ?S)" by blast
  have mem: "calculate_confidence (det_pii_type d) (slice txt (det_start d) (det_end d)) ctx
        = Inr (det_confidence d) \<and> confidence_threshold P \<le> det_confidence d"
    if "d \<in> set (rev (map ?D ?S))" for d
  proof -
    from that obtain m where m: "m \<in> set ?S" "d = ?D m" by auto
    from accepted_sorted_member [OF m(1)] show ?thesis
      by (simp add: m(2) detection_of_simps)
  qed
  have below: "\<not> (\<exists>d \<in> set (rev (map ?D ?S)). det_pii_type d = t \<and> det_start d = s \<and> det_end d = e)"
    if "calculate_confidence t (slice txt s e) ctx = Inr c" "c < confidence_threshold P"
    for t s e c
  proof
    assume "\<exists>d \<in> set (rev (map ?D ?S)). det_pii_type d = t \<and> det_start d = s \<and> det_end d = e"
    then obtain d where d: "d \<in> set (rev (map ?D ?S))" "det_pii_type d = t" "det_start d = s"
      "det_end d = e" by blast
    from mem [OF d(1)] that show False by (simp add: d)
  qed
  have cnt': "count_type t (rev (map ?D ?S)) = count_type t (map ?D ?S)" for t
    by (simp add: count_type_def rev_filter [symmetric])
  show ?thesis
    using r mem below cnt cnt'
    by (intro exI [of _ "apply_splices txt (map ?D ?S)"] exI [of _ "rev (map ?D ?S)"]
        exI [of _ P']) (simp del: set_rev, blast)
qed

lemma phone_field_eval:
  "applied_matches (deidentify_text_enhanced inert_hashlib (new_processor 0.7)
      ''9876543210'' []) = Inr [(Phone, 0, 10)]"
  by code_simp

lemma bank_match_eval:
  "finditer (ENHANCED_PII_PATTERNS Bank_account) ''9876543210'' = [(0, 10)]"
  by code_simp

lemma bank_conf_eval:
  "calculate_confidence Bank_account (slice ''9876543210'' 0 10) [] = Inr 0.6"
  by code_simp

text \<open>The theorem at the field \<open>9876543210\<close> with an empty context and threshold 0.7:
  the bank-account candidate scores 0.6 and is dropped, the phone candidate is the one
  detection.\<close>

theorem below_threshold_discarded_witness:
  "(0, 10) \<in> set (finditer (ENHANCED_PII_PATTERNS Bank_account) ''9876543210'')
   \<and> calculate_confidence Bank_account (slice ''9876543210'' 0 10) [] = Inr 0.6
   \<and> (0.6 :: real) < confidence_threshold (new_processor 0.7)
   \<and> (\<exists>new_text dets P'.
         deidentify_text_enhanced inert_hashlib (new_processor 0.7) ''9876543210'' []
           = Inr (new_text, dets, P')
         \<and> map det_pii_type dets = [Phone]
         \<and> list_all (\<lambda>d. confidence_threshold (new_processor 0.7) \<le> det_confidence d) dets
         \<and> \<not> list_ex (\<lambda>d. det_pii_type d = Bank_account \<and> det_start d = 0 \<and> det_end d = 10) dets
         \<and> counter_get (det_counts P') Bank_account = 0
         \<and> counter_get (det_counts P') Phone = 1
         \<and> new_text = apply_splices ''9876543210'' (rev dets))"
proof -
  let ?P = "new_processor 0.7"
  have m: "(0, 10) \<in> set (finditer (ENHANCED_PII_PATTERNS Bank_account) ''9876543210'')"
    unfolding bank_match_eval by simp
  have thr: "(0.6 :: real) < confidence_threshold ?P"
    by (simp add: new_processor_def)
  from below_threshold_discarded [of inert_hashlib ?P "''9876543210''" "[]"]
  obtain new_text dets P' where r:
    "deidentify_text_enhanced inert_hashlib ?P ''9876543210'' [] = Inr (new_text, dets, P')"
    "\<forall>d \<in> set dets. confidence_threshold ?P \<le> det_confidence d"
    "\<forall>t s e c. (s, e) \<in> set (finditer (ENHANCED_PII_PATTERNS t) ''9876543210'')
           \<and> calculate_confidence t (slice ''9876543210'' s e) [] = Inr c
           \<and> c < confidence_threshold ?P
           \<longrightarrow> \<not> (\<exists>d \<in> set dets. det_pii_type d = t \<and> det_start d = s \<and> det_end d = e)"
    "\<forall>t. counter_get (det_counts P') t = counter_get (det_counts ?P) t + count_type t dets"
    "new_text = apply_splices ''9876543210'' (rev dets)"
    by blast
  from phone_field_eval r(1)
  have "map (\<lambda>d. (det_pii_type d, det_start d, det_end d)) (rev dets) = [(Phone, 0, 10)]"
    by (simp add: applied_matches_def)
  then have "map fst (map (\<lambda>d. (det_pii_type d, det_start d, det_end d)) (rev dets)) = [Phone]"
    by simp
  then have "rev (map det_pii_type dets) = [Phone]"
    by (simp add: comp_def rev_map)
  then have "rev (rev (map det_pii_type dets)) = rev [Phone]"
    by (rule arg_cong)
  then have types: "map det_pii_type dets = [Phone]"
    by simp
  have la: "list_all (\<lambda>d. confidence_threshold ?P \<le> det_confidence d) dets"
    using r(2) unfolding list_all_iff .
  from r(3) m bank_conf_eval thr
  have "\<not> (\<exists>d \<in> set dets. det_pii_type d = Bank_account \<and> det_start d = 0 \<and> det_end d = 10)"
    by blast
  then have nb: "\<not> list_ex (\<lambda>d. det_pii_type d = Bank_account \<and> det_start d = 0 \<and> det_end d = 10) dets"
    unfolding list_ex_iff .
  have c0: "counter_get (det_counts ?P) t = 0" for t
    by (simp add: new_processor_def counter_get_def)
  have cb: "counter_get (det_counts P') Bank_account = 0"
    using r(4) by (simp add: c0 count_type_types types)
  have cp: "counter_get (det_counts P') Phone = 1"
    using r(4) by (simp add: c0 count_type_types types)
  have ex: "\<exists>new_text dets P'.
         deidentify_text_enhanced inert_hashlib ?P ''9876543210'' [] = Inr (new_text, dets, P')
         \<and> map det_pii_type dets = [Phone]
         \<and> list_all (\<lambda>d. confidence_threshold ?P \<le> det_confidence d) dets
         \<and> \<not> list_ex (\<lambda>d. det_pii_type d = Bank_account \<and> det_start d = 0 \<and> det_end d = 10) dets
         \<and> counter_get (det_counts P') Bank_account = 0
         \<and> counter_get (det_counts P') Phone = 1
         \<and> new_text = apply_splices ''9876543210'' (rev dets)"
    by (intro exI [of _ new_text] exI [of _ dets] exI [of _ P'] conjI r(1) types la nb cb cp r(5))
  show ?thesis
    by (intro conjI m bank_conf_eval thr ex)
qed

lemma phone_field_text_eval:
  "map_sum id fst (deidentify_text_enhanced inert_hashlib (new_processor 0.7) ''9876543210'' [])
     = Inr ''XXXXXX3210''"
  by code_simp

text \<open>The claim as stated fails where matches of two types overlap: in the field
  \<open>9876543210\<close> at threshold 0.7 the bank-account candidate (0 to 10) scores 0.6 and
  is dropped, and its span is masked all the same, by the replacement of the phone
  match on the same span.\<close>

theorem rejected_span_masked_by_other_type:
  "(0, 10) \<in> set (finditer (ENHANCED_PII_PATTERNS Bank_account) ''9876543210'')
   \<and> calculate_confidence Bank_account (slice ''9876543210'' 0 10) [] = Inr 0.6
   \<and> (0.6 :: real) < confidence_threshold (new_processor 0.7)
   \<and> map_sum id fst (deidentify_text_enhanced inert_hashlib (new_processor 0.7) ''9876543210'' [])
       = Inr ''XXXXXX3210''"
proof -
  have m: "(0, 10) \<in> set (finditer (ENHANCED_PII_PATTERNS Bank_account) ''9876543210'')"
    unfolding bank_match_eval by simp
  have thr: "(0.6 :: real) < confidence_threshold (new_processor 0.7)"
    by (simp add: new_processor_def)
  show ?thesis
    by (intro conjI m bank_conf_eval thr phone_field_text_eval)
qed

text \<open>
  C10, as amended. For the tax-ID (pan) and e-mail types the confidence scorer returns
  exactly 1 on every matched text and context; so at every threshold up to 1 every match
  of these two patterns is logged: the engine returns a detection with the span of the
  match, its raw value, confidence 1 and the masked value of the registry, which is
  \<open>PAN_\<close> followed by the first ten hexadecimal digits, in upper case, of the SHA-256
  digest of the raw value for a tax ID, and \<open>xxxx@\<close> followed by what comes after the
  first \<open>@\<close> of the raw value for an e-mail address. The output text is the input with
  the replacements of the detections applied in the order of the loop; when the
  detections of the field do not overlap, it is the input with the span of every
  detection replaced by its masked value and nothing else changed, so that the match
  is masked. (Where detections overlap the match can stay readable, see below.)
\<close>

theorem pan_email_always_detected:
  assumes "t = Pan \<or> t = Email"
  shows "calculate_confidence t match_text ctx = Inr 1
     \<and> (confidence_threshold P \<le> 1 \<longrightarrow>
         (\<forall>m \<in> set (finditer (ENHANCED_PII_PATTERNS t) txt).
            \<exists>new_text dets P'.
              deidentify_text_enhanced H P txt ctx = Inr (new_text, dets, P')
              \<and> new_text = apply_splices txt (rev dets)
              \<and> (spans_disjoint 0 dets \<longrightarrow> new_text = replace_from txt 0 dets)
              \<and> (\<exists>d \<in> set dets. det_pii_type d = t \<and> det_start d = fst m \<and> det_end d = snd m
                    \<and> det_confidence d = 1
                    \<and> det_raw_value d = slice txt (fst m) (snd m)
                    \<and> ENHANCED_DEIDENTIFY H t (det_raw_value d) = Inr (det_masked_value d)
                    \<and> (t = Pan \<longrightarrow> det_masked_value d
                          = ''PAN_'' @ upper (take 10 (sha256_hexdigest H (det_raw_value d))))
                    \<and> (t = Email \<longrightarrow> (\<exists>local domain.
                          det_raw_value d = local @ ''@'' @ domain \<and> CHR ''@'' \<notin> set local
                          \<and> det_masked_value d = ''xxxx@'' @ domain)))))"
proof (intro conjI impI ballI)
  have conf: "calculate_confidence t x ctx = Inr 1" for x
    using assms by (auto simp: calculate_confidence_def)
  show "calculate_confidence t match_text ctx = Inr 1" by (rule conf)
  fix m
  assume thr: "confidence_threshold P \<le> 1"
    and m: "m \<in> set (finditer (ENHANCED_PII_PATTERNS t) txt)"
  let ?S = "accepted_sorted (confidence_threshold P) txt ctx"
  let ?D = "detection_of H txt ctx"
  from deidentify_text_enhanced_eq [of H P "txt" ctx]
  obtain P' where r: "deidentify_text_enhanced H P txt ctx =
      Inr (apply_splices txt (map ?D ?S), rev (map ?D ?S), P')" by blast
  have sp: "apply_splices txt (map ?D ?S) = apply_splices txt (rev (rev (map ?D ?S)))"
    by simp
  have dis: "spans_disjoint 0 (rev (map ?D ?S)) \<longrightarrow>
      apply_splices txt (map ?D ?S) = replace_from txt 0 (rev (map ?D ?S))"
  proof
    assume a: "spans_disjoint 0 (rev (map ?D ?S))"
    have b: "\<forall>d \<in> set (rev (map ?D ?S)). det_start d \<le> det_end d \<and> det_end d \<le> length txt"
      using detections_within [of _ H "txt" ctx "confidence_threshold P"] by simp
    from apply_splices_disjoint [OF a b]
    show "apply_splices txt (map ?D ?S) = replace_from txt 0 (rev (map ?D ?S))" by simp
  qed
  obtain s e where se: "m = (s, e)" by (cases m) auto
  let ?d = "?D (t, (s, e), 1)"
  have "(t, (s, e), 1) \<in> set (candidates_of txt ctx)"
    using candidates_of_iff [of t s e 1 "txt" ctx] m conf by (simp add: se)
  then have S: "(t, (s, e), 1) \<in> set ?S"
    using thr by (simp add: set_accepted_sorted accepted_def)
  have mem: "?d \<in> set (rev (map ?D ?S))"
    using S by (simp del: detection_of.simps)
  from deidentify_total [OF m [unfolded se], of H]
  obtain masked where "ENHANCED_DEIDENTIFY H t (slice txt s e) = Inr masked" by blast
  then have reg: "ENHANCED_DEIDENTIFY H t (det_raw_value ?d) = Inr (det_masked_value ?d)"
    by (simp add: masked_of_def)
  have pan: "t = Pan \<longrightarrow> det_masked_value ?d
      = ''PAN_'' @ upper (take 10 (sha256_hexdigest H (det_raw_value ?d)))"
    by (simp add: masked_of_def anonymize_pan_def)
  have email: "t = Email \<longrightarrow> (\<exists>local domain.
      det_raw_value ?d = local @ ''@'' @ domain \<and> CHR ''@'' \<notin> set local
      \<and> det_masked_value ?d = ''xxxx@'' @ domain)"
  proof
    assume t: "t = Email"
    from email_match_has_at [OF m [unfolded se t]]
    obtain local domain where ld: "slice txt s e = local @ ''@'' @ domain"
      "CHR ''@'' \<notin> set local" by blast
    from pseudo_email_split [OF ld(2), of domain]
    have "masked_of H Email (slice txt s e) = ''xxxx@'' @ domain"
      by (simp only: masked_of_def ld(1) ENHANCED_DEIDENTIFY.simps sum.case)
    with ld show "\<exists>local domain.
      det_raw_value ?d = local @ ''@'' @ domain \<and> CHR ''@'' \<notin> set local
      \<and> det_masked_value ?d = ''xxxx@'' @ domain"
      by (intro exI [of _ local] exI [of _ domain]) (simp add: t)
  qed
  have basic: "det_pii_type ?d = t" "det_start ?d = fst m" "det_end ?d = snd m"
    "det_confidence ?d = 1" "det_raw_value ?d = slice txt (fst m) (snd m)"
    by (simp_all add: se)
  have found: "\<exists>d \<in> set (rev (map ?D ?S)). det_pii_type d = t \<and> det_start d = fst m
        \<and> det_end d = snd m \<and> det_confidence d = 1
        \<and> det_raw_value d = slice txt (fst m) (snd m)
        \<and> ENHANCED_DEIDENTIFY H t (det_raw_value d) = Inr (det_masked_value d)
        \<and> (t = Pan \<longrightarrow> det_masked_value d
              = ''PAN_'' @ upper (take 10 (sha256_hexdigest H (det_raw_value d))))
        \<and> (t = Email \<longrightarrow> (\<exists>local domain.
              det_raw_value d = local @ ''@'' @ domain \<and> CHR ''@'' \<notin> set local
              \<and> det_masked_value d = ''xxxx@'' @ domain))"
    by (intro bexI [of _ ?d] conjI basic reg pan email mem)
  show "\<exists>new_text dets P'.
              deidentify_text_enhanced H P txt ctx = Inr (new_text, dets, P')
              \<and> new_text = apply_splices txt (rev dets)
              \<and> (spans_disjoint 0 dets \<longrightarrow> new_text = replace_from txt 0 dets)
              \<and> (\<exists>d \<in> set dets. det_pii_type d = t \<and> det_start d = fst m \<and> det_end d = snd m
                    \<and> det_confidence d = 1
                    \<and> det_raw_value d = slice txt (fst m) (snd m)
                    \<and> ENHANCED_DEIDENTIFY H t (det_raw_value d) = Inr (det_masked_value d)
                    \<and> (t = Pan \<longrightarrow> det_masked_value d
                          = ''PAN_'' @ upper (take 10 (sha256_hexdigest H (det_raw_value d))))
                    \<and> (t = Email \<longrightarrow> (\<exists>local domain.
                          det_raw_value d = local @ ''@'' @ domain \<and> CHR ''@'' \<notin> set local
                          \<and> det_masked_value d = ''xxxx@'' @ domain)))"
    by (intro exI [of _ "apply_splices txt (map ?D ?S)"] exI [of _ "rev (map ?D ?S)"]
        exI [of _ P'] conjI r sp dis found)
qed

lemma pan_in_domain_match_eval:
  "finditer (ENHANCED_PII_PATTERNS Pan) ''a@ABCDE1234F.com'' = [(2, 12)]"
  by code_simp

lemma pan_in_domain_applied_eval:
  "applied_matches (deidentify_text_enhanced sample_hashlib (new_processor 0.7)
      ''a@ABCDE1234F.com'' []) = Inr [(Pan, 2, 12), (Email, 0, 16)]"
  by code_simp

lemma pan_in_domain_text_eval:
  "map_sum id fst (deidentify_text_enhanced sample_hashlib (new_processor 0.7)
      ''a@ABCDE1234F.com'' []) = Inr ''xxxx@ABCDE1234F.com.com''"
  by code_simp

text \<open>The claim as stated fails where matches overlap: a match of these types is always
  logged, and need not be masked in the output. In the field \<open>a@ABCDE1234F.com\<close> at
  threshold 0.7 the tax-ID match (2 to 12) is replaced first; the replacement of the
  e-mail match (0 to 16) is then built from the original text, tax ID included, and
  put over the first 16 characters of the working copy. The output shows the tax ID in
  clear at positions 5 to 15.\<close>

theorem raw_pan_survives_in_email_domain:
  "(2, 12) \<in> set (finditer (ENHANCED_PII_PATTERNS Pan) ''a@ABCDE1234F.com'')
   \<and> slice ''a@ABCDE1234F.com'' 2 12 = ''ABCDE1234F''
   \<and> calculate_confidence Pan ''ABCDE1234F'' [] = Inr 1
   \<and> confidence_threshold (new_processor 0.7) \<le> 1
   \<and> applied_matches (deidentify_text_enhanced sample_hashlib (new_processor 0.7)
        ''a@ABCDE1234F.com'' []) = Inr [(Pan, 2, 12), (Email, 0, 16)]
   \<and> map_sum id fst (deidentify_text_enhanced sample_hashlib (new_processor 0.7)
        ''a@ABCDE1234F.com'' []) = Inr ''xxxx@ABCDE1234F.com.com''
   \<and> slice ''xxxx@ABCDE1234F.com.com'' 5 15 = ''ABCDE1234F''"
proof -
  have m: "(2, 12) \<in> set (finditer (ENHANCED_PII_PATTERNS Pan) ''a@ABCDE1234F.com'')"
    unfolding pan_in_domain_match_eval by simp
  have raw: "slice ''a@ABCDE1234F.com'' 2 12 = ''ABCDE1234F''"
    by (simp add: slice_def)
  have conf: "calculate_confidence Pan ''ABCDE1234F'' [] = Inr 1"
    by (simp add: calculate_confidence_def)
  have thr: "confidence_threshold (new_processor 0.7) \<le> 1"
    by (simp add: new_processor_def)
  have out: "slice ''xxxx@ABCDE1234F.com.com'' 5 15 = ''ABCDE1234F''"
    by (simp add: slice_def)
  show ?thesis
    by (intro conjI m raw conf thr pan_in_domain_applied_eval pan_in_domain_text_eval out)
qed

lemma two_ids_pan_eval:
  "finditer (ENHANCED_PII_PATTERNS Pan) ''ABCDE1234F a@b.co'' = [(0, 10)]"
  by code_simp

lemma two_ids_email_eval:
  "finditer (ENHANCED_PII_PATTERNS Email) ''ABCDE1234F a@b.co'' = [(11, 17)]"
  by code_simp

lemma two_ids_disjoint_eval:
  "map_sum id (\<lambda>(new_text, ds, P). spans_disjoint 0 ds)
     (deidentify_text_enhanced sample_hashlib (new_processor 0.7) ''ABCDE1234F a@b.co'' [])
     = Inr True"
  by code_simp

lemma two_ids_text_eval:
  "map_sum id fst (deidentify_text_enhanced sample_hashlib (new_processor 0.7)
      ''ABCDE1234F a@b.co'' []) = Inr ''PAN_6442FD73A9 xxxx@b.co''"
  by code_simp

lemma two_ids_token_eval:
  "''PAN_'' @ upper (take 10 (sha256_hexdigest sample_hashlib (slice ''ABCDE1234F a@b.co'' 0 10)))
     = ''PAN_6442FD73A9''"
  by code_simp

text \<open>The amended theorem at the field \<open>ABCDE1234F a@b.co\<close> and threshold 0.7, for the
  tax-ID match (0 to 10) and for the e-mail match (11 to 17): the two detections do not
  overlap and both are masked in the output.\<close>

theorem pan_email_always_detected_witness:
  "confidence_threshold (new_processor 0.7) \<le> 1
   \<and> (0, 10) \<in> set (finditer (ENHANCED_PII_PATTERNS Pan) ''ABCDE1234F a@b.co'')
   \<and> (11, 17) \<in> set (finditer (ENHANCED_PII_PATTERNS Email) ''ABCDE1234F a@b.co'')
   \<and> calculate_confidence Pan ''ABCDE1234F'' [] = Inr 1
   \<and> calculate_confidence Email ''a@b.co'' [] = Inr 1
   \<and> (\<exists>new_text dets P'.
         deidentify_text_enhanced sample_hashlib (new_processor 0.7) ''ABCDE1234F a@b.co'' []
           = Inr (new_text, dets, P')
         \<and> new_text = apply_splices ''ABCDE1234F a@b.co'' (rev dets)
         \<and> spans_disjoint 0 dets
         \<and> new_text = replace_from ''ABCDE1234F a@b.co'' 0 dets
         \<and> new_text = ''PAN_6442FD73A9 xxxx@b.co''
         \<and> list_ex (\<lambda>d. det_pii_type d = Pan \<and> det_start d = 0 \<and> det_end d = 10
               \<and> det_confidence d = 1 \<and> det_raw_value d = ''ABCDE1234F''
               \<and> det_masked_value d = ''PAN_6442FD73A9'') dets
         \<and> list_ex (\<lambda>d. det_pii_type d = Email \<and> det_start d = 11 \<and> det_end d = 17
               \<and> det_confidence d = 1 \<and> det_raw_value d = ''a@b.co''
               \<and> det_masked_value d = ''xxxx@b.co'') dets)"
proof -
  let ?P = "new_processor 0.7"
  let ?txt = "''ABCDE1234F a@b.co''"
  have thr: "confidence_threshold ?P \<le> 1"
    by (simp add: new_processor_def)
  have m_pan: "(0, 10) \<in> set (finditer (ENHANCED_PII_PATTERNS Pan) ?txt)"
    unfolding two_ids_pan_eval by simp
  have m_email: "(11, 17) \<in> set (finditer (ENHANCED_PII_PATTERNS Email) ?txt)"
    unfolding two_ids_email_eval by simp
  have tp: "Pan = Pan \<or> Pan = Email" by simp
  have te: "Email = Pan \<or> Email = Email" by simp
  have rawp: "slice ?txt 0 10 = ''ABCDE1234F''" by (simp add: slice_def)
  have rawe: "slice ?txt 11 17 = ''a@b.co''" by (simp add: slice_def)
  note thp = pan_email_always_detected [OF tp, of "''ABCDE1234F''" "[]" ?P ?txt sample_hashlib]
  note the = pan_email_always_detected [OF te, of "''a@b.co''" "[]" ?P ?txt sample_hashlib]
  from thp have cp: "calculate_confidence Pan ''ABCDE1234F'' [] = Inr 1" by (rule conjunct1)
  from the have ce: "calculate_confidence Email ''a@b.co'' [] = Inr 1" by (rule conjunct1)
  from thp thr m_pan obtain new_text dets P' where r:
    "deidentify_text_enhanced sample_hashlib ?P ?txt [] = Inr (new_text, dets, P')"
    "new_text = apply_splices ?txt (rev dets)"
    "spans_disjoint 0 dets \<longrightarrow> new_text = replace_from ?txt 0 dets"
    "\<exists>d \<in> set dets. det_pii_type d = Pan \<and> det_start d = fst (0 :: nat, 10 :: nat)
        \<and> det_end d = snd (0 :: nat, 10 :: nat) \<and> det_confidence d = 1
        \<and> det_raw_value d = slice ?txt (fst (0 :: nat, 10 :: nat)) (snd (0 :: nat, 10 :: nat))
        \<and> ENHANCED_DEIDENTIFY sample_hashlib Pan (det_raw_value d) = Inr (det_masked_value d)
        \<and> (Pan = Pan \<longrightarrow> det_masked_value d
              = ''PAN_'' @ upper (take 10 (sha256_hexdigest sample_hashlib (det_raw_value d))))
        \<and> (Pan = Email \<longrightarrow> (\<exists>local domain.
              det_raw_value d = local @ ''@'' @ domain \<and> CHR ''@'' \<notin> set local
              \<and> det_masked_value d = ''xxxx@'' @ domain))"
    by blast
  from the thr m_email obtain new_text' dets' P'' where r':
    "deidentify_text_enhanced sample_hashlib ?P ?txt [] = Inr (new_text', dets', P'')"
    "\<exists>d \<in> set dets'. det_pii_type d = Email \<and> det_start d = fst (11 :: nat, 17 :: nat)
        \<and> det_end d = snd (11 :: nat, 17 :: nat) \<and> det_confidence d = 1
        \<and> det_raw_value d = slice ?txt (fst (11 :: nat, 17 :: nat)) (snd (11 :: nat, 17 :: nat))
        \<and> ENHANCED_DEIDENTIFY sample_hashlib Email (det_raw_value d) = Inr (det_masked_value d)
        \<and> (Email = Pan \<longrightarrow> det_masked_value d
              = ''PAN_'' @ upper (take 10 (sha256_hexdigest sample_hashlib (det_raw_value d))))
        \<and> (Email = Email \<longrightarrow> (\<exists>local domain.
              det_raw_value d = local @ ''@'' @ domain \<and> CHR ''@'' \<notin> set local
              \<and> det_masked_value d = ''xxxx@'' @ domain))"
    by blast
  from r(1) r'(1) have same: "dets' = dets" by simp
  from two_ids_disjoint_eval have dis: "spans_disjoint 0 dets"
    unfolding r(1) by simp
  from r(3) dis have rep: "new_text = replace_from ?txt 0 dets" by (rule mp)
  from two_ids_text_eval have nt: "new_text = ''PAN_6442FD73A9 xxxx@b.co''"
    unfolding r(1) by simp
  from r(4) obtain d where d: "d \<in> set dets" "det_pii_type d = Pan" "det_start d = 0"
    "det_end d = 10" "det_confidence d = 1" "det_raw_value d = slice ?txt 0 10"
    "det_masked_value d
       = ''PAN_'' @ upper (take 10 (sha256_hexdigest sample_hashlib (det_raw_value d)))"
    unfolding fst_conv snd_conv by blast
  have dm: "det_masked_value d = ''PAN_6442FD73A9''"
    unfolding d(7) d(6) by (rule two_ids_token_eval)
  have dr: "det_raw_value d = ''ABCDE1234F''"
    unfolding d(6) by (rule rawp)
  from d(1-5) dr dm
  have lp: "list_ex (\<lambda>d. det_pii_type d = Pan \<and> det_start d = 0 \<and> det_end d = 10
               \<and> det_confidence d = 1 \<and> det_raw_value d = ''ABCDE1234F''
               \<and> det_masked_value d = ''PAN_6442FD73A9'') dets"
    unfolding list_ex_iff by blast
  from r'(2) obtain d' local domain where d': "d' \<in> set dets" "det_pii_type d' = Email"
    "det_start d' = 11" "det_end d' = 17" "det_confidence d' = 1"
    "det_raw_value d' = slice ?txt 11 17"
    "det_raw_value d' = local @ ''@'' @ domain" "CHR ''@'' \<notin> set local"
    "det_masked_value d' = ''xxxx@'' @ domain"
    unfolding fst_conv snd_conv same by blast
  have dr': "det_raw_value d' = ''a@b.co''"
    unfolding d'(6) by (rule rawe)
  from first_at_split [OF d'(8), of domain]
  have "dropWhile (\<lambda>c. c \<noteq> CHR ''@'') (det_raw_value d') = ''@'' @ domain"
    unfolding d'(7) .
  then have "domain = ''b.co''"
    unfolding dr' by simp
  with d'(9) have dm': "det_masked_value d' = ''xxxx@b.co''" by simp
  from d'(1-5) dr' dm'
  have le: "list_ex (\<lambda>d. det_pii_type d = Email \<and> det_start d = 11 \<and> det_end d = 17
               \<and> det_confidence d = 1 \<and> det_raw_value d = ''a@b.co''
               \<and> det_masked_value d = ''xxxx@b.co'') dets"
    unfolding list_ex_iff by blast
  have ex: "\<exists>new_text dets P'.
         deidentify_text_enhanced sample_hashlib ?P ?txt [] = Inr (new_text, dets, P')
         \<and> new_text = apply_splices ?txt (rev dets)
         \<and> spans_disjoint 0 dets
         \<and> new_text = replace_from ?txt 0 dets
         \<and> new_text = ''PAN_6442FD73A9 xxxx@b.co''
         \<and> list_ex (\<lambda>d. det_pii_type d = Pan \<and> det_start d = 0 \<and> det_end d = 10
               \<and> det_confidence d = 1 \<and> det_raw_value d = ''ABCDE1234F''
               \<and> det_masked_value d = ''PAN_6442FD73A9'') dets
         \<and> list_ex (\<lambda>d. det_pii_type d = Email \<and> det_start d = 11 \<and> det_end d = 17
               \<and> det_confidence d = 1 \<and> det_raw_value d = ''a@b.co''
               \<and> det_masked_value d = ''xxxx@b.co'') dets"
    by (intro exI [of _ new_text] exI [of _ dets] exI [of _ P'] conjI r(1,2) dis rep nt lp le)
  show ?thesis
    by (intro conjI thr m_pan m_email cp ce ex)
qed

section \<open>Aggregator: properties\<close>

text \<open>On a processor that has processed nothing yet, the counts of the summary are the
  numbers of detections of the run.\<close>

lemma fresh_txt_run_counts:
  "\<exists>new_text r P'.
     process_txt_enhanced H (new_processor thr) txt = Inr (new_text, r, P')
     \<and> (\<forall>t. counter_get (counts_by_type (run_summary r)) t = count_type t (run_detections r))"
proof -
  let ?P = "new_processor thr"
  let ?ds = "map (detection_of H txt txt) (accepted_sorted (confidence_threshold ?P) txt txt)"
  from deidentify_text_enhanced_eq [of H ?P "txt" "txt"]
  obtain P' where r: "deidentify_text_enhanced H ?P txt txt
      = Inr (apply_splices txt ?ds, rev ?ds, P')"
    and cnt: "\<forall>t. counter_get (det_counts P') t = counter_get (det_counts ?P) t + count_type t ?ds"
    by blast
  have c0: "counter_get (det_counts ?P) t = 0" for t
    by (simp add: new_processor_def counter_get_def)
  let ?log = "map (tag 1 ''text'') (rev ?ds)"
  have run: "process_txt_enhanced H ?P txt
      = Inr (apply_splices txt ?ds,
             \<lparr>run_summary = generate_summary P' ?log, run_detections = ?log\<rparr>, P')"
    by (simp only: process_txt_enhanced_def r sum.case prod.case Let_def)
  have "counter_get (counts_by_type (generate_summary P' ?log)) t = count_type t ?log" for t
    using cnt by (simp add: generate_summary_def c0 count_type_tag count_type_rev)
  with run show ?thesis
    by (intro exI [of _ "apply_splices txt ?ds"]
        exI [of _ "\<lparr>run_summary = generate_summary P' ?log, run_detections = ?log\<rparr>"]
        exI [of _ P']) simp
qed

text \<open>
  C5. The per-type count of a run's summary is claimed to be the number of detections
  of that type in that run's log. The counters live in the processor and are never
  reset: when one processor (as the upload service's module-level instance) processes
  the text \<open>mail a@b.co\<close> twice, the second summary counts 2 e-mail addresses while
  the second log holds 1 detection.
\<close>

theorem second_run_counts_first_run_too:
  "(case process_txt_enhanced inert_hashlib (new_processor 0.7) ''mail a@b.co'' of
      Inl _ \<Rightarrow> None
    | Inr (_, _, P1) \<Rightarrow>
        (case process_txt_enhanced inert_hashlib P1 ''mail a@b.co'' of
           Inl _ \<Rightarrow> None
         | Inr (_, r2, _) \<Rightarrow>
             Some (counts_by_type (run_summary r2), map det_pii_type (run_detections r2))))
   = Some ([(Email, 2)], [Email])"
  by code_simp

section \<open>Record-list adapter: properties\<close>







end
